theory Spec2Isabelle
  imports Complex_Main "HOL-Library.FSet" "HOL-Library.AList"
begin

section \<open>Python values: exceptions and insertion-ordered dictionaries\<close>

text \<open>
  The exceptions the script can raise.  A computation that may raise has the result
  type \<open>error + 'a\<close>, with \<open>Inl\<close> for the exception.
\<close>

datatype error = KeyError | ValueError | IndexError | TypeError

text \<open>
  A Python \<open>dict\<close> is insertion ordered and has unique keys.  It is an association list
  whose keys are distinct: \<open>len\<close> is \<open>length\<close>, \<open>k in d\<close> is membership among the
  keys, \<open>d[k]\<close> looks the key up or raises \<open>KeyError\<close>, \<open>d[k] = v\<close> is
  \<open>AList.update\<close> (replace in place, or append a new key at the end) and \<open>d.copy()\<close>
  is the list itself.
\<close>

type_synonym ('k, 'v) dict = "('k \<times> 'v) list"

definition keys :: "('k, 'v) dict \<Rightarrow> 'k list" where
  "keys d = map fst d"

definition getitem :: "('k, 'v) dict \<Rightarrow> 'k \<Rightarrow> error + 'v" where
  "getitem d k = (case map_of d k of None \<Rightarrow> Inl KeyError | Some v \<Rightarrow> Inr v)"

section \<open>The constraint model (module \<open>csp\<close>)\<close>

text \<open>
  A constraint is a scope (a tuple of variable names) and a condition on one value per
  scoped variable, in scope order.  The condition is Python code, so it may raise.
\<close>

record ('var, 'val) Constraint =
  scope :: "'var list"
  condition :: "'val list \<Rightarrow> error + bool"

text \<open>
  The model: the mapping from each variable to its domain (a finite set of values), in
  declaration order, and the list of constraints.
\<close>

record ('var, 'val) NaryCSP =
  domains :: "('var, 'val fset) dict"
  constraints :: "('var, 'val) Constraint list"

type_synonym ('var, 'val) assignment = "('var, 'val) dict"

text \<open>
  Modelled from the spec: the method \<open>Constraint.holds\<close> of module \<open>csp\<close>, which is
  not part of the sources.  The condition is evaluated on the values the assignment
  binds to the scope, in scope order; a scope variable that the assignment does not
  bind is a \<open>KeyError\<close>.
\<close>

definition holds :: "('var, 'val) Constraint \<Rightarrow> ('var, 'val) assignment \<Rightarrow> error + bool" where
  "holds con assignment =
     (case those (map (map_of assignment) (scope con)) of
        None \<Rightarrow> Inl KeyError
      | Some vals \<Rightarrow> condition con vals)"

text \<open>
  Modelled from the spec: the method \<open>NaryCSP.consistent\<close> of module \<open>csp\<close>, which is
  not part of the sources (spec section 4.1).  The constraints are visited in list
  order; one whose scope is not fully bound is skipped; one whose scope is fully bound is
  evaluated, and the first that fails ends the check with \<open>False\<close>.
\<close>

fun consistent_loop ::
  "('var, 'val) Constraint list \<Rightarrow> ('var, 'val) assignment \<Rightarrow> error + bool" where
  "consistent_loop [] assignment = Inr True"
| "consistent_loop (con # cons) assignment =
     (if \<forall>v \<in> set (scope con). v \<in> set (keys assignment)
      then (case holds con assignment of
              Inl e \<Rightarrow> Inl e
            | Inr ok \<Rightarrow> if ok then consistent_loop cons assignment else Inr False)
      else consistent_loop cons assignment)"

definition consistent :: "('var, 'val) NaryCSP \<Rightarrow> ('var, 'val) assignment \<Rightarrow> error + bool" where
  "consistent csp assignment = consistent_loop (constraints csp) assignment"

section \<open>Backtracking search\<close>

text \<open>
  Python's \<open>min(xs, key=f)\<close>: \<open>ValueError\<close> on an empty sequence, otherwise the first
  element whose key is minimal (a later element replaces the current one only when its
  key is strictly smaller).
\<close>

fun min_key :: "('a \<Rightarrow> nat) \<Rightarrow> 'a list \<Rightarrow> error + 'a" where
  "min_key key [] = Inl ValueError"
| "min_key key (x # xs) = Inr (foldl (\<lambda>best y. if key y < key best then y else best) x xs)"

text \<open>\<open>[v for v in csp.domains if v not in assignment]\<close>\<close>

definition unassigned :: "('var, 'val) NaryCSP \<Rightarrow> ('var, 'val) assignment \<Rightarrow> 'var list" where
  "unassigned csp assignment = filter (\<lambda>v. v \<notin> set (keys assignment)) (keys (domains csp))"

text \<open>
  \<open>len(csp.domains[v])\<close>, the key of the variable selection.  It is only applied to
  keys of \<open>csp.domains\<close>, where the lookup succeeds.
\<close>

definition domain_size :: "('var, 'val) NaryCSP \<Rightarrow> 'var \<Rightarrow> nat" where
  "domain_size csp v = (case map_of (domains csp) v of None \<Rightarrow> 0 | Some d \<Rightarrow> fcard d)"

text \<open>
  The results of the iterations of a \<open>for\<close> loop that yields from a generator in each
  iteration: the yielded sequences in order, up to the first iteration that raises.
\<close>

fun yield_from_all :: "(error + 'a list) list \<Rightarrow> error + 'a list" where
  "yield_from_all [] = Inr []"
| "yield_from_all (r # rs) =
     (case r of
        Inl e \<Rightarrow> Inl e
      | Inr xs \<Rightarrow> (case yield_from_all rs of Inl e \<Rightarrow> Inl e | Inr ys \<Rightarrow> Inr (xs @ ys)))"

text \<open>
  \<open>backtracking(csp, assignment)\<close>, consumed to the end as \<open>list(...)\<close> does: the
  list of the assignments it yields, or the exception that ends the enumeration.
  Dictionaries are values here; the search on a store of mutable objects follows below.
\<close>

function backtracking ::
  "('var, 'val::linorder) NaryCSP \<Rightarrow> ('var, 'val) assignment \<Rightarrow> error + ('var, 'val) assignment list" where
  "backtracking csp assignment =
     (if length assignment = length (domains csp) then Inr [assignment]
      else
        (case min_key (domain_size csp) (unassigned csp assignment) of
           Inl e \<Rightarrow> Inl e
         | Inr var \<Rightarrow>
             (case getitem (domains csp) var of
                Inl e \<Rightarrow> Inl e
              | Inr d \<Rightarrow>
                  yield_from_all
                    (map (\<lambda>val.
                            let new_assignment = AList.update var val assignment
                            in (case consistent csp new_assignment of
                                  Inl e \<Rightarrow> Inl e
                                | Inr ok \<Rightarrow>
                                    if ok then backtracking csp new_assignment else Inr []))
                         (sorted_list_of_fset d)))))"
  by pat_completeness auto

lemma foldl_min_key_mem:
  "foldl (\<lambda>best y. if key y < key best then y else best) x xs \<in> set (x # xs)"
  by (induction xs arbitrary: x) auto

lemma min_key_mem: "min_key key xs = Inr v \<Longrightarrow> v \<in> set xs"
  using foldl_min_key_mem [of key] by (cases xs) auto

lemma unassigned_update:
  "unassigned csp (AList.update var val assignment) =
     filter (\<lambda>v. v \<noteq> var) (unassigned csp assignment)"
  by (auto simp: unassigned_def keys_def dom_update intro: filter_cong)

lemma length_filter_neq_less:
  "v \<in> set xs \<Longrightarrow> length (filter (\<lambda>u. u \<noteq> v) xs) < length xs"
  by (induction xs) (auto simp: less_Suc_eq_le)

termination backtracking
proof (relation "measure (\<lambda>(csp, assignment). length (unassigned csp assignment))")
  show "wf (measure (\<lambda>(csp :: ('a, 'b) NaryCSP, assignment). length (unassigned csp assignment)))"
    by simp
next
  fix csp :: "('a, 'b) NaryCSP" and assignment var d val new_assignment ok
  assume "min_key (domain_size csp) (unassigned csp assignment) = Inr var"
    and "new_assignment = AList.update var val assignment"
  then show "((csp, new_assignment), (csp, assignment))
      \<in> measure (\<lambda>(csp, assignment). length (unassigned csp assignment))"
    by (simp add: unassigned_update length_filter_neq_less min_key_mem)
qed

subsection \<open>The search on a store of dictionary objects\<close>

text \<open>
  Python dictionaries are mutable objects and \<open>backtracking\<close> receives a reference:
  the default argument \<open>assignment={}\<close> is one object shared by all calls.  The store
  is the list of the dictionary objects allocated so far; an address is an index into it.
  \<open>assignment.copy()\<close> allocates a new object at the end of the store,
  \<open>new_assignment[var] = value\<close> updates the object at the address of
  \<open>new_assignment\<close>, and \<open>yield assignment\<close> yields the address.
\<close>

type_synonym addr = nat

type_synonym ('var, 'val) heap = "('var, 'val) assignment list"

text \<open>
  The outcome of a run: the exception or the list of yielded addresses, with the store
  it leaves; \<open>None\<close> when the recursion depth allowed is exhausted.
\<close>

type_synonym ('var, 'val) outcome = "((error + addr list) \<times> ('var, 'val) heap) option"

text \<open>
  The loop \<open>for value in sorted(csp.domains[var])\<close>.  Every iteration reads the object
  of \<open>assignment\<close> in the current store; \<open>rec\<close> is the recursive call.
\<close>

fun for_values ::
  "(addr \<Rightarrow> ('var, 'val) heap \<Rightarrow> ('var, 'val) outcome) \<Rightarrow> ('var, 'val) NaryCSP \<Rightarrow> addr \<Rightarrow>
   'var \<Rightarrow> 'val list \<Rightarrow> ('var, 'val) heap \<Rightarrow> ('var, 'val) outcome" where
  "for_values rec csp assignment var [] h = Some (Inr [], h)"
| "for_values rec csp assignment var (val # vals) h =
     (let new_assignment = length h;
          h1 = h @ [h ! assignment];
          h2 = h1[new_assignment := AList.update var val (h1 ! new_assignment)]
      in (case consistent csp (h2 ! new_assignment) of
            Inl e \<Rightarrow> Some (Inl e, h2)
          | Inr ok \<Rightarrow>
              (case (if ok then rec new_assignment h2 else Some (Inr [], h2)) of
                 None \<Rightarrow> None
               | Some (Inl e, h3) \<Rightarrow> Some (Inl e, h3)
               | Some (Inr ys, h3) \<Rightarrow>
                   (case for_values rec csp assignment var vals h3 of
                      None \<Rightarrow> None
                    | Some (Inl e, h4) \<Rightarrow> Some (Inl e, h4)
                    | Some (Inr zs, h4) \<Rightarrow> Some (Inr (ys @ zs), h4)))))"

text \<open>
  \<open>backtracking(csp, assignment)\<close> on the store, with the recursion depth bounded by
  the first argument.
\<close>

fun backtracking_heap ::
  "nat \<Rightarrow> ('var, 'val::linorder) NaryCSP \<Rightarrow> addr \<Rightarrow> ('var, 'val) heap \<Rightarrow> ('var, 'val) outcome" where
  "backtracking_heap 0 csp assignment h = None"
| "backtracking_heap (Suc fuel) csp assignment h =
     (if length (h ! assignment) = length (domains csp) then Some (Inr [assignment], h)
      else
        (case min_key (domain_size csp) (unassigned csp (h ! assignment)) of
           Inl e \<Rightarrow> Some (Inl e, h)
         | Inr var \<Rightarrow>
             (case getitem (domains csp) var of
                Inl e \<Rightarrow> Some (Inl e, h)
              | Inr d \<Rightarrow>
                  for_values (backtracking_heap fuel csp) csp assignment var
                    (sorted_list_of_fset d) h)))"

section \<open>The order-selection problem\<close>

text \<open>
  Sequencing of computations that may raise, and the helpers for Python's indexing,
  generator sums and list comprehensions over them.
\<close>

definition and_then :: "error + 'a \<Rightarrow> ('a \<Rightarrow> error + 'b) \<Rightarrow> error + 'b" where
  "and_then r f = (case r of Inl e \<Rightarrow> Inl e | Inr x \<Rightarrow> f x)"

text \<open>\<open>xs[i]\<close> for a non-negative index: \<open>IndexError\<close> out of range.\<close>

definition index :: "'a list \<Rightarrow> nat \<Rightarrow> error + 'a" where
  "index xs i = (if i < length xs then Inr (xs ! i) else Inl IndexError)"

text \<open>\<open>sum(e(x) for x in xs)\<close>: the terms are evaluated in order, the first exception ends it.\<close>

fun sum_gen :: "('a \<Rightarrow> error + int) \<Rightarrow> 'a list \<Rightarrow> error + int" where
  "sum_gen e [] = Inr 0"
| "sum_gen e (x # xs) =
     (case e x of
        Inl err \<Rightarrow> Inl err
      | Inr y \<Rightarrow> (case sum_gen e xs of Inl err \<Rightarrow> Inl err | Inr s \<Rightarrow> Inr (y + s)))"

text \<open>\<open>[e(x) for x in xs if c(x)]\<close>\<close>

fun list_comp :: "('a \<Rightarrow> error + bool) \<Rightarrow> ('a \<Rightarrow> 'b) \<Rightarrow> 'a list \<Rightarrow> error + 'b list" where
  "list_comp c e [] = Inr []"
| "list_comp c e (x # xs) =
     (case c x of
        Inl err \<Rightarrow> Inl err
      | Inr ok \<Rightarrow>
          (case list_comp c e xs of
             Inl err \<Rightarrow> Inl err
           | Inr ys \<Rightarrow> Inr (if ok then e x # ys else ys)))"

subsection \<open>Problem data\<close>

definition orders :: "int list list" where
  "orders =
    [[3, 0, 1, 0, 0],
     [0, 1, 0, 1, 0],
     [0, 0, 1, 0, 2],
     [1, 0, 2, 1, 1],
     [0, 1, 0, 0, 0]]"

definition order_totals :: "int list" where
  "order_totals = map sum_list orders"

definition corridors :: "int list list" where
  "corridors =
    [[2, 1, 1, 0, 1],
     [2, 1, 2, 0, 1],
     [0, 2, 0, 1, 2],
     [2, 1, 0, 1, 1],
     [0, 1, 2, 1, 2]]"

definition LB :: int where
  "LB = 5"

definition UB :: int where
  "UB = 12"

subsection \<open>Variables, domains and constraints\<close>

text \<open>The decimal numeral of a natural number, as an f-string prints it.\<close>

fun str_nat :: "nat \<Rightarrow> string" where
  "str_nat n =
     (if n < 10 then [''0123456789'' ! n]
      else str_nat (n div 10) @ [''0123456789'' ! (n mod 10)])"

declare str_nat.simps [simp del]

text \<open>\<open>f"Pedido{n + 1}"\<close> and \<open>f"Corredor{a + 1}"\<close>\<close>

definition Pedido :: "nat \<Rightarrow> string" where
  "Pedido n = ''Pedido'' @ str_nat (n + 1)"

definition Corredor :: "nat \<Rightarrow> string" where
  "Corredor a = ''Corredor'' @ str_nat (a + 1)"

text \<open>
  The dictionary \<open>domains\<close> of the script: the order variables, then the corridor
  variables, each stored with the domain \<open>{0, 1}\<close>.
\<close>

definition domains_dict :: "(string, int fset) dict" where
  "domains_dict =
     foldl (\<lambda>d a. AList.update (Corredor a) {|0, 1|} d)
       (foldl (\<lambda>d n. AList.update (Pedido n) {|0, 1|} d) [] [0..<length orders])
       [0..<length corridors]"

definition total_demand_constraint :: "int list \<Rightarrow> error + bool" where
  "total_demand_constraint order_vals =
     (let total = sum_list (map (\<lambda>(total, val). total * val) (zip order_totals order_vals))
      in Inr (LB \<le> total \<and> total \<le> UB))"

definition orders_variables :: "string list" where
  "orders_variables = map Pedido [0..<length orders]"

definition item_constraint_factory :: "nat \<Rightarrow> int list \<Rightarrow> error + bool" where
  "item_constraint_factory i vals =
     (let order_vals = take 5 vals;
          corridor_vals = drop 5 vals
      in and_then
           (sum_gen (\<lambda>n. and_then (index orders n) (\<lambda>row. and_then (index row i) (\<lambda>x.
                            and_then (index order_vals n) (\<lambda>v. Inr (x * v))))) [0..<5])
           (\<lambda>demand.
              and_then
                (sum_gen (\<lambda>a. and_then (index corridors a) (\<lambda>row. and_then (index row i) (\<lambda>x.
                                 and_then (index corridor_vals a) (\<lambda>v. Inr (x * v))))) [0..<5])
                (\<lambda>capacity. Inr (demand \<le> capacity))))"

definition all_variables :: "string list" where
  "all_variables = orders_variables @ map Corredor [0..<length corridors]"

text \<open>
  The list \<open>constraints\<close> of the script: the total-demand constraint over the order
  variables, then one item constraint over all variables for each \<open>j\<close> below
  \<open>len(orders)\<close>.
\<close>

definition constraints_list :: "(string, int) Constraint list" where
  "constraints_list =
     \<lparr>scope = orders_variables, condition = total_demand_constraint\<rparr> #
     map (\<lambda>j. \<lparr>scope = all_variables, condition = item_constraint_factory j\<rparr>)
       [0..<length orders]"

definition csp_instance :: "(string, int) NaryCSP" where
  "csp_instance = \<lparr>domains = domains_dict, constraints = constraints_list\<rparr>"

subsection \<open>Objective, report and selection of the best wave\<close>

text \<open>
  The parameter \<open>sol\<close> of \<open>objective\<close> and \<open>print_solution\<close> is a dictionary or
  \<open>None\<close> (the initial value of \<open>best_solution\<close>); subscripting \<open>None\<close> is a
  \<open>TypeError\<close>.
\<close>

definition subscript :: "('k, 'v) dict option \<Rightarrow> 'k \<Rightarrow> error + 'v" where
  "subscript sol k = (case sol of None \<Rightarrow> Inl TypeError | Some d \<Rightarrow> getitem d k)"

text \<open>
  \<open>objective(solution)\<close>.  The quotient of the two integers is a Python float; it is
  modelled by the exact rational number, and \<open>-1\<close> by the rational \<open>-1\<close>.
\<close>

definition objective :: "(string, int) assignment option \<Rightarrow> error + rat" where
  "objective solution =
     and_then
       (sum_gen (\<lambda>n. and_then (index order_totals n) (\<lambda>t.
                        and_then (subscript solution (Pedido n)) (\<lambda>v. Inr (t * v))))
          [0..<length orders])
       (\<lambda>total_units.
          and_then (sum_gen (\<lambda>a. subscript solution (Corredor a)) [0..<length corridors])
            (\<lambda>num_corridors.
               Inr (if num_corridors > 0 then of_int total_units / of_int num_corridors
                    else - 1)))"

text \<open>\<open>', '.join(xs) if xs else 'Nenhum'\<close>\<close>

fun join :: "string \<Rightarrow> string list \<Rightarrow> string" where
  "join sep [] = []"
| "join sep [x] = x"
| "join sep (x # y # ys) = x @ sep @ join sep (y # ys)"

definition join_or_none :: "string list \<Rightarrow> string" where
  "join_or_none xs = (if xs \<noteq> [] then join '', '' xs else ''Nenhum'')"

text \<open>
  What \<open>print_solution(sol, index)\<close> prints: the wave index, the two lists of selected
  names as joined, the two counts and the objective value (the number that the last
  line formats with two decimals).
\<close>

record wave =
  wave_index :: int
  orders_line :: string
  corridors_line :: string
  total_units :: int
  num_corridors :: int
  objective_value :: rat

definition print_solution :: "(string, int) assignment option \<Rightarrow> int \<Rightarrow> error + wave" where
  "print_solution sol idx =
     and_then
       (list_comp (\<lambda>n. and_then (subscript sol (Pedido n)) (\<lambda>v. Inr (v = 1))) Pedido
          [0..<length orders])
       (\<lambda>orders_selected.
     and_then
       (list_comp (\<lambda>a. and_then (subscript sol (Corredor a)) (\<lambda>v. Inr (v = 1))) Corredor
          [0..<length corridors])
       (\<lambda>corridors_selected.
     and_then
       (sum_gen (\<lambda>n. and_then (index order_totals n) (\<lambda>t.
                        and_then (subscript sol (Pedido n)) (\<lambda>v. Inr (t * v))))
          [0..<length orders])
       (\<lambda>total.
     and_then (sum_gen (\<lambda>a. subscript sol (Corredor a)) [0..<length corridors])
       (\<lambda>num.
     and_then (objective sol)
       (\<lambda>obj.
          Inr \<lparr>wave_index = idx,
               orders_line = join_or_none orders_selected,
               corridors_line = join_or_none corridors_selected,
               total_units = total,
               num_corridors = num,
               objective_value = obj\<rparr>)))))"

text \<open>\<open>enumerate(xs, start=1)\<close>\<close>

definition enumerate1 :: "'a list \<Rightarrow> (int \<times> 'a) list" where
  "enumerate1 xs = zip [1..int (length xs)] xs"

text \<open>\<open>for idx, sol in enumerate(solutions, start=1): print_solution(sol, idx)\<close>\<close>

fun print_all :: "(int \<times> (string, int) assignment) list \<Rightarrow> error + wave list" where
  "print_all [] = Inr []"
| "print_all ((idx, sol) # rest) =
     (case print_solution (Some sol) idx of
        Inl e \<Rightarrow> Inl e
      | Inr w \<Rightarrow> (case print_all rest of Inl e \<Rightarrow> Inl e | Inr ws \<Rightarrow> Inr (w # ws)))"

text \<open>
  The selection loop: the state is \<open>(best_solution, best_obj, best_index)\<close>, replaced
  whenever the objective of the current solution is at least \<open>best_obj\<close>.
\<close>

type_synonym best = "(string, int) assignment option \<times> rat \<times> int"

fun select_loop :: "(int \<times> (string, int) assignment) list \<Rightarrow> best \<Rightarrow> error + best" where
  "select_loop [] b = Inr b"
| "select_loop ((idx, sol) # rest) (best_solution, best_obj, best_index) =
     (case objective (Some sol) of
        Inl e \<Rightarrow> Inl e
      | Inr obj_val \<Rightarrow>
          if obj_val \<ge> best_obj then select_loop rest (Some sol, obj_val, idx)
          else select_loop rest (best_solution, best_obj, best_index))"

definition select_best :: "(string, int) assignment list \<Rightarrow> error + best" where
  "select_best solutions = select_loop (enumerate1 solutions) (None, - 1, - 1)"

text \<open>
  The end of the script, from the list of solutions on: every wave is printed, the best
  one is selected and printed.
\<close>

definition report :: "(string, int) assignment list \<Rightarrow> error + wave list \<times> wave" where
  "report solutions =
     and_then (print_all (enumerate1 solutions))
       (\<lambda>waves.
          and_then (select_best solutions)
            (\<lambda>(best_solution, best_obj, best_index).
               and_then (print_solution best_solution best_index)
                 (\<lambda>w. Inr (waves, w))))"

text \<open>The whole script: \<open>solutions = list(backtracking(csp_instance))\<close>, then the report.\<close>

definition script :: "error + wave list \<times> wave" where
  "script = and_then (backtracking csp_instance []) report"

section \<open>Notions of the specification\<close>

text \<open>
  A complete assignment of a model binds every variable of the model, and no other
  name, to a value of the variable's domain.
\<close>

definition complete_assignment :: "('var, 'val) NaryCSP \<Rightarrow> ('var, 'val) assignment \<Rightarrow> bool" where
  "complete_assignment csp a =
     (distinct (keys a) \<and> set (keys a) = set (keys (domains csp)) \<and>
      list_all (\<lambda>(v, d). case map_of a v of None \<Rightarrow> False | Some x \<Rightarrow> x |\<in>| d) (domains csp))"

text \<open>The selected orders and corridors of a solution: the indices bound to \<open>1\<close>.\<close>

definition selected_orders :: "(string, int) assignment \<Rightarrow> nat list" where
  "selected_orders solution =
     filter (\<lambda>n. map_of solution (Pedido n) = Some 1) [0..<length orders]"

definition selected_corridors :: "(string, int) assignment \<Rightarrow> nat list" where
  "selected_corridors solution =
     filter (\<lambda>a. map_of solution (Corredor a) = Some 1) [0..<length corridors]"

text \<open>
  Two solutions of the problem instance, used as concrete inputs below:
  orders 2 and 3 from corridor 5, and orders 1, 2, 3 and 5 from corridors 2 and 4.
\<close>

definition wave_a :: "(string, int) assignment" where
  "wave_a =
     [(''Pedido1'', 0), (''Pedido2'', 1), (''Pedido3'', 1), (''Pedido4'', 0), (''Pedido5'', 0),
      (''Corredor1'', 0), (''Corredor2'', 0), (''Corredor3'', 0), (''Corredor4'', 0),
      (''Corredor5'', 1)]"

definition wave_b :: "(string, int) assignment" where
  "wave_b =
     [(''Pedido1'', 1), (''Pedido2'', 1), (''Pedido3'', 1), (''Pedido4'', 0), (''Pedido5'', 1),
      (''Corredor1'', 0), (''Corredor2'', 1), (''Corredor3'', 0), (''Corredor4'', 1),
      (''Corredor5'', 0)]"

text \<open>
  A small model used as a concrete input: two binary variables \<open>A\<close> and \<open>B\<close> and
  the constraint \<open>A + B = 1\<close> over \<open>(A, B)\<close>.
\<close>

definition ab_model :: "(string, int) NaryCSP" where
  "ab_model =
     \<lparr>domains = [(''A'', {|0, 1|}), (''B'', {|0, 1|})],
      constraints = [\<lparr>scope = [''A'', ''B''], condition = (\<lambda>vals. Inr (sum_list vals = 1))\<rparr>]\<rparr>"

text \<open>
  The invariant of the assignments on a search branch: the keys are distinct (it is a
  dictionary) and every bound name is a variable of the model, bound to a value of its
  domain.
\<close>

definition partial_ok :: "('var, 'val) NaryCSP \<Rightarrow> ('var, 'val) assignment \<Rightarrow> bool" where
  "partial_ok csp a =
     (distinct (keys a) \<and>
      (\<forall>(v, x)\<in>set a. \<exists>d. map_of (domains csp) v = Some d \<and> x |\<in>| d))"

text \<open>A model without variables whose only constraint has an empty scope and always fails.\<close>

definition empty_model :: "(string, int) NaryCSP" where
  "empty_model = \<lparr>domains = [], constraints = [\<lparr>scope = [], condition = (\<lambda>vals. Inr False)\<rparr>]\<rparr>"

text \<open>An assignment satisfies the model when every constraint evaluates to true on it.\<close>

definition satisfies_all :: "('var, 'val) NaryCSP \<Rightarrow> ('var, 'val) assignment \<Rightarrow> bool" where
  "satisfies_all csp a = list_all (\<lambda>con. holds con a = Inr True) (constraints csp)"

text \<open>
  Brute force: all combinations of one domain value per variable, in declaration order,
  filtered by the constraint predicates.
\<close>

fun all_assignments :: "('var, 'val::linorder fset) dict \<Rightarrow> ('var, 'val) assignment list" where
  "all_assignments [] = [[]]"
| "all_assignments ((v, d) # ds) =
     concat (map (\<lambda>x. map (\<lambda>a. (v, x) # a) (all_assignments ds)) (sorted_list_of_fset d))"

definition brute_force :: "('var, 'val::linorder) NaryCSP \<Rightarrow> ('var, 'val) assignment list" where
  "brute_force csp = filter (satisfies_all csp) (all_assignments (domains csp))"

text \<open>
  Modelled from the spec: the constructor of \<open>NaryCSP\<close> (module \<open>csp\<close>) is not part of
  the sources.  A model is well formed when its variables are distinct (\<open>domains\<close> is a
  dictionary) and every scope names declared variables only (spec section 7: a scope that
  references an undeclared variable is rejected at construction).
\<close>

definition well_formed :: "('var, 'val) NaryCSP \<Rightarrow> bool" where
  "well_formed csp =
     (distinct (keys (domains csp)) \<and>
      (\<forall>con\<in>set (constraints csp). set (scope con) \<subseteq> set (keys (domains csp))))"

text \<open>
  The conditions of the model do not raise on values drawn from the declared domains
  (spec section 4.1: the model is only ever called with such values).
\<close>

definition conditions_total :: "('var, 'val) NaryCSP \<Rightarrow> bool" where
  "conditions_total csp =
     (\<forall>con\<in>set (constraints csp). \<forall>vals.
        list_all2 (\<lambda>v x. \<exists>d. map_of (domains csp) v = Some d \<and> x |\<in>| d) (scope con) vals \<longrightarrow>
        (\<exists>b. condition con vals = Inr b))"

text \<open>The complete satisfying assignments that extend a partial assignment, as mappings.\<close>

definition extensions ::
  "('var, 'val) NaryCSP \<Rightarrow> ('var, 'val) assignment \<Rightarrow> ('var \<rightharpoonup> 'val) set" where
  "extensions csp a =
     map_of ` {s. complete_assignment csp s \<and> satisfies_all csp s \<and> map_of a \<subseteq>\<^sub>m map_of s}"

text \<open>
  An outcome on the store agrees with a result of the search on values: the objects that
  existed before the run are unchanged, the same exception is raised or the yielded
  addresses are allocated and hold the yielded assignments.
\<close>

definition refines ::
  "error + ('var, 'val) assignment list \<Rightarrow> ('var, 'val) heap \<Rightarrow>
   (error + addr list) \<times> ('var, 'val) heap \<Rightarrow> bool" where
  "refines pure h res =
     (case res of (r, h') \<Rightarrow>
        take (length h) h' = h \<and>
        (case pure of
           Inl e \<Rightarrow> r = Inl e
         | Inr sols \<Rightarrow> (case r of Inl e \<Rightarrow> False
                        | Inr ps \<Rightarrow> map ((!) h') ps = sols \<and> list_all (\<lambda>q. q < length h') ps)))"

section \<open>Properties\<close>

subsection \<open>Facts about the problem data\<close>

lemma domains_dict_eq:
  "domains_dict =
     [(''Pedido1'', {|0, 1|}), (''Pedido2'', {|0, 1|}), (''Pedido3'', {|0, 1|}),
      (''Pedido4'', {|0, 1|}), (''Pedido5'', {|0, 1|}), (''Corredor1'', {|0, 1|}),
      (''Corredor2'', {|0, 1|}), (''Corredor3'', {|0, 1|}), (''Corredor4'', {|0, 1|}),
      (''Corredor5'', {|0, 1|})]"
  by code_simp

lemma Pedido_simps:
  "Pedido 0 = ''Pedido1''" "Pedido 1 = ''Pedido2''" "Pedido 2 = ''Pedido3''"
  "Pedido 3 = ''Pedido4''" "Pedido 4 = ''Pedido5''" "Pedido (Suc 0) = ''Pedido2''"
  by code_simp+

lemma Corredor_simps:
  "Corredor 0 = ''Corredor1''" "Corredor 1 = ''Corredor2''" "Corredor 2 = ''Corredor3''"
  "Corredor 3 = ''Corredor4''" "Corredor 4 = ''Corredor5''"
  "Corredor (Suc 0) = ''Corredor2''"
  by code_simp+

lemma upt_5: "[0..<5] = [0, 1, 2, 3, 4]"
  by code_simp

lemma length_orders: "length orders = 5" by (simp add: orders_def)
lemma length_corridors: "length corridors = 5" by (simp add: corridors_def)
lemma order_totals_eq: "order_totals = [4, 2, 3, 5, 1]" by (simp add: order_totals_def orders_def)

lemma sum_gen_Inr:
  "(\<And>x. x \<in> set xs \<Longrightarrow> e x = Inr (g x)) \<Longrightarrow> sum_gen e xs = Inr (sum_list (map g xs))"
  by (induction xs) auto

lemma sum_list_binary_weighted:
  "(\<And>n. n \<in> set ns \<Longrightarrow> v n = (0::int) \<or> v n = 1) \<Longrightarrow>
   sum_list (map (\<lambda>n. t n * v n) ns) = sum_list (map t (filter (\<lambda>n. v n = 1) ns))"
  by (induction ns) auto

lemma sum_list_binary_count:
  "(\<And>n. n \<in> set ns \<Longrightarrow> v n = (0::int) \<or> v n = 1) \<Longrightarrow>
   sum_list (map v ns) = int (length (filter (\<lambda>n. v n = 1) ns))"
  by (induction ns) auto

lemma complete_assignmentD:
  assumes "complete_assignment csp a" "(v, d) \<in> set (domains csp)"
  shows "\<exists>x. map_of a v = Some x \<and> x |\<in>| d"
  using assms by (auto simp: complete_assignment_def list_all_iff split: option.splits)

lemma Pedido_in_domains: "n < 5 \<Longrightarrow> (Pedido n, {|0, 1|}) \<in> set (domains csp_instance)"
proof -
  assume "n < 5"
  then consider "n = 0" | "n = 1" | "n = 2" | "n = 3" | "n = 4" by linarith
  then show ?thesis
    by cases (simp_all add: csp_instance_def domains_dict_eq Pedido_simps)
qed

lemma Corredor_in_domains: "n < 5 \<Longrightarrow> (Corredor n, {|0, 1|}) \<in> set (domains csp_instance)"
proof -
  assume "n < 5"
  then consider "n = 0" | "n = 1" | "n = 2" | "n = 3" | "n = 4" by linarith
  then show ?thesis
    by cases (simp_all add: csp_instance_def domains_dict_eq Corredor_simps)
qed

lemma complete_instance_Pedido:
  assumes "complete_assignment csp_instance solution" "n < 5"
  shows "\<exists>x. map_of solution (Pedido n) = Some x \<and> (x = 0 \<or> x = 1)"
  using complete_assignmentD [OF assms(1) Pedido_in_domains [OF assms(2)]] by auto

lemma complete_instance_Corredor:
  assumes "complete_assignment csp_instance solution" "n < 5"
  shows "\<exists>x. map_of solution (Corredor n) = Some x \<and> (x = 0 \<or> x = 1)"
  using complete_assignmentD [OF assms(1) Corredor_in_domains [OF assms(2)]] by auto

subsection \<open>The objective\<close>

lemma objective_complete:
  assumes c: "complete_assignment csp_instance solution"
  shows "objective (Some solution) =
     Inr (if selected_corridors solution = [] then - 1
          else of_int (sum_list (map (\<lambda>n. order_totals ! n) (selected_orders solution))) /
               of_int (int (length (selected_corridors solution))))"
proof -
  define pv where "pv n = the (map_of solution (Pedido n))" for n
  define cv where "cv n = the (map_of solution (Corredor n))" for n
  have p: "map_of solution (Pedido n) = Some (pv n) \<and> (pv n = 0 \<or> pv n = 1)" if "n < 5" for n
    using complete_instance_Pedido [OF c that] by (auto simp: pv_def)
  have q: "map_of solution (Corredor n) = Some (cv n) \<and> (cv n = 0 \<or> cv n = 1)" if "n < 5" for n
    using complete_instance_Corredor [OF c that] by (auto simp: cv_def)
  have total: "sum_gen (\<lambda>n. and_then (index order_totals n) (\<lambda>t.
                   and_then (subscript (Some solution) (Pedido n)) (\<lambda>v. Inr (t * v))))
                 [0..<length orders] = Inr (sum_list (map (\<lambda>n. order_totals ! n * pv n) [0..<5]))"
    unfolding length_orders
    by (rule sum_gen_Inr) (simp add: and_then_def index_def subscript_def getitem_def p order_totals_eq)
  have num: "sum_gen (\<lambda>a. subscript (Some solution) (Corredor a)) [0..<length corridors]
               = Inr (sum_list (map cv [0..<5]))"
    unfolding length_corridors
    by (rule sum_gen_Inr) (simp add: subscript_def getitem_def q)
  have so: "selected_orders solution = filter (\<lambda>n. pv n = 1) [0..<5]"
    unfolding selected_orders_def length_orders by (rule filter_cong) (auto simp: p)
  have sc: "selected_corridors solution = filter (\<lambda>n. cv n = 1) [0..<5]"
    unfolding selected_corridors_def length_corridors by (rule filter_cong) (auto simp: q)
  have t2: "sum_list (map (\<lambda>n. order_totals ! n * pv n) [0..<5]) =
             sum_list (map (\<lambda>n. order_totals ! n) (selected_orders solution))"
    unfolding so by (rule sum_list_binary_weighted) (use p in auto)
  have n2: "sum_list (map cv [0..<5]) = int (length (selected_corridors solution))"
    unfolding sc by (rule sum_list_binary_count) (use q in auto)
  show ?thesis
    unfolding objective_def total num t2 n2 by (simp add: and_then_def)
qed



subsection \<open>The selection loop\<close>

lemma objective_lower_bound:
  assumes "complete_assignment csp_instance solution"
  shows "\<exists>w. objective (Some solution) = Inr w \<and> - 1 \<le> w"
proof -
  have "0 \<le> sum_list (map (\<lambda>n. order_totals ! n) (selected_orders solution))"
    by (rule sum_list_nonneg) (auto simp: selected_orders_def length_orders order_totals_eq nth_Cons' )
  then have "(0::rat) \<le> of_int (sum_list (map (\<lambda>n. order_totals ! n) (selected_orders solution))) /
               of_int (int (length (selected_corridors solution)))"
    by simp
  then show ?thesis
    unfolding objective_complete [OF assms] by auto
qed

lemma select_loop_split:
  assumes "\<forall>p\<in>set ps. objective (Some (snd p)) = Inr (f (snd p))"
  shows "((\<forall>p\<in>set ps. f (snd p) < bo) \<and> select_loop ps (bs, bo, bi) = Inr (bs, bo, bi))
     \<or> (\<exists>pre i s post. ps = pre @ (i, s) # post \<and>
            select_loop ps (bs, bo, bi) = Inr (Some s, f s, i) \<and> bo \<le> f s \<and>
            (\<forall>p\<in>set pre. f (snd p) \<le> f s) \<and> (\<forall>p\<in>set post. f (snd p) < f s))"
  using assms
proof (induction ps arbitrary: bs bo bi)
  case Nil
  then show ?case by simp
next
  case (Cons p ps)
  obtain i s where p: "p = (i, s)" by (cases p)
  from Cons.prems have os: "objective (Some s) = Inr (f s)"
    and rest: "\<forall>p\<in>set ps. objective (Some (snd p)) = Inr (f (snd p))"
    by (auto simp: p)
  show ?case
  proof (cases "bo \<le> f s")
    case True
    then have step: "select_loop (p # ps) (bs, bo, bi) = select_loop ps (Some s, f s, i)"
      by (simp add: p os)
    from Cons.IH [OF rest, of "f s" "Some s" i]
    show ?thesis
    proof (elim disjE conjE exE)
      assume a: "\<forall>p\<in>set ps. f (snd p) < f s"
        and b: "select_loop ps (Some s, f s, i) = Inr (Some s, f s, i)"
      have "p # ps = [] @ (i, s) # ps" by (simp add: p)
      with a b step True show ?thesis
        by (intro disjI2 exI [of _ "[]"] exI [of _ i] exI [of _ s] exI [of _ ps]) simp
    next
      fix pre j t post
      assume a: "ps = pre @ (j, t) # post"
        and b: "select_loop ps (Some s, f s, i) = Inr (Some t, f t, j)"
        and c: "f s \<le> f t" "\<forall>p\<in>set pre. f (snd p) \<le> f t" "\<forall>p\<in>set post. f (snd p) < f t"
      have "p # ps = (p # pre) @ (j, t) # post" by (simp add: a)
      moreover have "\<forall>q\<in>set (p # pre). f (snd q) \<le> f t" using c by (simp add: p)
      moreover have "bo \<le> f t" using True c by simp
      ultimately show ?thesis using b c(3) step
        by (intro disjI2 exI [of _ "p # pre"] exI [of _ j] exI [of _ t] exI [of _ post]) simp
    qed
  next
    case False
    then have step: "select_loop (p # ps) (bs, bo, bi) = select_loop ps (bs, bo, bi)"
      by (simp add: p os)
    from Cons.IH [OF rest, of bo bs bi]
    show ?thesis
    proof (elim disjE conjE exE)
      assume a: "\<forall>p\<in>set ps. f (snd p) < bo"
        and b: "select_loop ps (bs, bo, bi) = Inr (bs, bo, bi)"
      with step False show ?thesis by (intro disjI1) (simp add: p)
    next
      fix pre j t post
      assume a: "ps = pre @ (j, t) # post"
        and b: "select_loop ps (bs, bo, bi) = Inr (Some t, f t, j)"
        and c: "bo \<le> f t" "\<forall>p\<in>set pre. f (snd p) \<le> f t" "\<forall>p\<in>set post. f (snd p) < f t"
      have "p # ps = (p # pre) @ (j, t) # post" by (simp add: a)
      moreover have "\<forall>q\<in>set (p # pre). f (snd q) \<le> f t" using c False by (simp add: p)
      ultimately show ?thesis using b c(1,3) step
        by (intro disjI2 exI [of _ "p # pre"] exI [of _ j] exI [of _ t] exI [of _ post]) simp
    qed
  qed
qed

lemma length_upto1: "length [1..int n] = n"
  by simp

lemma map_snd_enumerate1: "map snd (enumerate1 xs) = xs"
  unfolding enumerate1_def by (rule map_snd_zip) (simp add: length_upto1)

lemma map_fst_enumerate1: "map fst (enumerate1 xs) = [1..int (length xs)]"
  unfolding enumerate1_def by (rule map_fst_zip) (simp add: length_upto1)

lemma enumerate1_split:
  assumes "enumerate1 xs = pre @ (i, s) # post"
  shows "xs = map snd pre @ s # map snd post" and "i = int (length pre) + 1"
proof -
  have "map snd (enumerate1 xs) = map snd (pre @ (i, s) # post)"
    by (simp only: assms)
  then show "xs = map snd pre @ s # map snd post"
    by (simp add: map_snd_enumerate1)
  have "map fst (enumerate1 xs) = map fst (pre @ (i, s) # post)"
    by (simp only: assms)
  then have m: "[1..int (length xs)] = map fst pre @ i # map fst post"
    by (simp add: map_fst_enumerate1)
  have "length [1..int (length xs)] = length (map fst pre @ i # map fst post)"
    by (simp only: m)
  then have len: "length pre < length xs"
    by (simp add: length_upto1)
  have "[1..int (length xs)] ! length pre = (map fst pre @ i # map fst post) ! length (map fst pre)"
    by (simp only: m length_map)
  then have "[1..int (length xs)] ! length pre = i"
    by (simp only: nth_append_length)
  moreover have "[1..int (length xs)] ! length pre = 1 + int (length pre)"
    by (rule nth_upto) (use len in simp)
  ultimately show "i = int (length pre) + 1" by simp
qed

lemma select_best_split:
  assumes ne: "solutions \<noteq> []"
    and c: "\<forall>s\<in>set solutions. complete_assignment csp_instance s"
  shows "\<exists>pre s post. solutions = pre @ s # post \<and>
           select_best solutions = Inr (Some s, projr (objective (Some s)), int (length pre) + 1) \<and>
           (\<forall>t\<in>set pre. projr (objective (Some t)) \<le> projr (objective (Some s))) \<and>
           (\<forall>t\<in>set post. projr (objective (Some t)) < projr (objective (Some s)))"
proof -
  define f where "f t = projr (objective (Some t))" for t
  have obj: "objective (Some t) = Inr (f t) \<and> - 1 \<le> f t" if "t \<in> set solutions" for t
  proof -
    from c that have "complete_assignment csp_instance t" by simp
    from objective_lower_bound [OF this] show ?thesis by (auto simp: f_def)
  qed
  have sn: "snd p \<in> set solutions" if "p \<in> set (enumerate1 solutions)" for p
  proof -
    from that have "snd p \<in> set (map snd (enumerate1 solutions))" by simp
    then show ?thesis by (simp only: map_snd_enumerate1)
  qed
  have all: "\<forall>p\<in>set (enumerate1 solutions). objective (Some (snd p)) = Inr (f (snd p))"
    using obj sn by simp
  have "enumerate1 solutions \<noteq> []"
  proof
    assume "enumerate1 solutions = []"
    then have "map snd (enumerate1 solutions) = []" by simp
    then show False using ne by (simp only: map_snd_enumerate1)
  qed
  then have "hd (enumerate1 solutions) \<in> set (enumerate1 solutions)"
    by (rule hd_in_set)
  then obtain p where p: "p \<in> set (enumerate1 solutions)" ..
  have "- 1 \<le> f (snd p)" using obj [OF sn [OF p]] by simp
  then have notless: "\<not> (\<forall>p\<in>set (enumerate1 solutions). f (snd p) < - 1)"
    using p by (meson not_less)
  from select_loop_split [OF all, of "- 1" None "- 1"] notless
  have "\<exists>pre i s post. enumerate1 solutions = pre @ (i, s) # post \<and>
            select_loop (enumerate1 solutions) (None, - 1, - 1) = Inr (Some s, f s, i) \<and> - 1 \<le> f s \<and>
            (\<forall>p\<in>set pre. f (snd p) \<le> f s) \<and> (\<forall>p\<in>set post. f (snd p) < f s)"
    by (elim disjE) simp_all
  then obtain pre i s post where sp: "enumerate1 solutions = pre @ (i, s) # post"
    and res: "select_loop (enumerate1 solutions) (None, - 1, - 1) = Inr (Some s, f s, i)"
    and le: "\<forall>p\<in>set pre. f (snd p) \<le> f s" and less: "\<forall>p\<in>set post. f (snd p) < f s"
    by (elim exE conjE)
  note e = enumerate1_split [OF sp]
  have 1: "solutions = map snd pre @ s # map snd post" by (rule e)
  have 2: "select_best solutions = Inr (Some s, f s, int (length (map snd pre)) + 1)"
    using res e(2) by (simp add: select_best_def)
  have 3: "\<forall>t\<in>set (map snd pre). f t \<le> f s" using le by simp
  have 4: "\<forall>t\<in>set (map snd post). f t < f s" using less by simp
  show ?thesis
    unfolding f_def [symmetric]
    by (intro exI [of _ "map snd pre"] exI [of _ s] exI [of _ "map snd post"] conjI 1 2 3 4)
qed

lemma objective_Inr_projr:
  assumes "complete_assignment csp_instance t"
  shows "objective (Some t) = Inr (projr (objective (Some t)))"
  using objective_lower_bound [OF assms] by auto

text \<open>
  C10: on a non-empty list of complete assignments of the instance the selection loop
  replaces its initial state \<open>(None, -1, -1)\<close>: the first iteration already stores the
  first solution, because every objective value is at least \<open>-1\<close> and the comparison is
  \<open>>=\<close>.  After the loop \<open>best_solution\<close> is the element of the list at the 1-based
  position \<open>best_index\<close>, \<open>best_obj\<close> is its objective value, and no solution of the
  list has a greater objective value.
\<close>

theorem select_best_replaces_sentinel:
  assumes ne: "solutions \<noteq> []"
    and c: "\<forall>s\<in>set solutions. complete_assignment csp_instance s"
  shows "\<exists>s v i. select_best solutions = Inr (Some s, v, i) \<and>
           1 \<le> i \<and> i \<le> int (length solutions) \<and> solutions ! nat (i - 1) = s \<and>
           objective (Some s) = Inr v \<and>
           (\<forall>t\<in>set solutions. \<exists>w. objective (Some t) = Inr w \<and> w \<le> v) \<and>
           (\<exists>w. select_loop [(1, hd solutions)] (None, - 1, - 1) = Inr (Some (hd solutions), w, 1))"
proof -
  from select_best_split [OF ne c] obtain pre s post
    where sp: "solutions = pre @ s # post"
      and res: "select_best solutions = Inr (Some s, projr (objective (Some s)), int (length pre) + 1)"
      and le: "\<forall>t\<in>set pre. projr (objective (Some t)) \<le> projr (objective (Some s))"
      and less: "\<forall>t\<in>set post. projr (objective (Some t)) < projr (objective (Some s))"
    by (elim exE conjE)
  let ?v = "projr (objective (Some s))" and ?i = "int (length pre) + 1"
  have 1: "1 \<le> ?i" by simp
  have 2: "?i \<le> int (length solutions)" by (simp add: sp)
  have 3: "solutions ! nat (?i - 1) = s" by (simp add: sp)
  have "s \<in> set solutions" by (simp add: sp)
  with c have 4: "objective (Some s) = Inr ?v" by (intro objective_Inr_projr) simp
  have 5: "\<forall>t\<in>set solutions. \<exists>w. objective (Some t) = Inr w \<and> w \<le> ?v"
  proof
    fix t assume t: "t \<in> set solutions"
    with c have o: "objective (Some t) = Inr (projr (objective (Some t)))"
      by (intro objective_Inr_projr) simp
    from t have "t \<in> set pre \<or> t = s \<or> t \<in> set post" by (auto simp: sp)
    then have "projr (objective (Some t)) \<le> ?v"
      using le less by (elim disjE) (simp_all add: less_imp_le)
    with o show "\<exists>w. objective (Some t) = Inr w \<and> w \<le> ?v" by (intro exI conjI)
  qed
  have "hd solutions \<in> set solutions" using ne by (rule hd_in_set)
  with c have "complete_assignment csp_instance (hd solutions)" by simp
  from objective_lower_bound [OF this] obtain w
    where w: "objective (Some (hd solutions)) = Inr w" "- 1 \<le> w" by (elim exE conjE)
  have 6: "\<exists>w. select_loop [(1, hd solutions)] (None, - 1, - 1) = Inr (Some (hd solutions), w, 1)"
    by (intro exI [of _ w]) (simp add: w)
  show ?thesis
    by (intro exI [of _ s] exI [of _ ?v] exI [of _ ?i] conjI res 1 2 3 4 5 6)
qed

theorem select_best_replaces_sentinel_witness:
  "[wave_a, wave_b] \<noteq> [] \<and>
   complete_assignment csp_instance wave_a \<and> complete_assignment csp_instance wave_b \<and>
   (\<exists>s v i. select_best [wave_a, wave_b] = Inr (Some s, v, i) \<and>
           1 \<le> i \<and> i \<le> int (length [wave_a, wave_b]) \<and> [wave_a, wave_b] ! nat (i - 1) = s \<and>
           objective (Some s) = Inr v \<and>
           (\<forall>t\<in>set [wave_a, wave_b]. \<exists>w. objective (Some t) = Inr w \<and> w \<le> v) \<and>
           (\<exists>w. select_loop [(1, hd [wave_a, wave_b])] (None, - 1, - 1) =
                  Inr (Some (hd [wave_a, wave_b]), w, 1)))"
proof -
  have a: "complete_assignment csp_instance wave_a" by code_simp
  have b: "complete_assignment csp_instance wave_b" by code_simp
  have h1: "[wave_a, wave_b] \<noteq> []" by simp
  have h2: "\<forall>s\<in>set [wave_a, wave_b]. complete_assignment csp_instance s" using a b by simp
  show ?thesis
    using h1 a b select_best_replaces_sentinel [OF h1 h2] by (intro conjI)
qed

text \<open>
  C5, as the code has it: the selected solution has the maximal objective value of the
  list, and among the solutions that attain the maximum it is the last one in
  enumeration order (every later solution has a strictly smaller objective value).
\<close>

theorem select_best_keeps_last_maximal:
  assumes ne: "solutions \<noteq> []"
    and c: "\<forall>s\<in>set solutions. complete_assignment csp_instance s"
  shows "\<exists>s v i. select_best solutions = Inr (Some s, v, i) \<and>
           1 \<le> i \<and> i \<le> int (length solutions) \<and> solutions ! nat (i - 1) = s \<and>
           objective (Some s) = Inr v \<and>
           (\<forall>j<length solutions. \<exists>w. objective (Some (solutions ! j)) = Inr w \<and> w \<le> v \<and>
                (i \<le> int j \<longrightarrow> w < v))"
proof -
  from select_best_split [OF ne c] obtain pre s post
    where sp: "solutions = pre @ s # post"
      and res: "select_best solutions = Inr (Some s, projr (objective (Some s)), int (length pre) + 1)"
      and le: "\<forall>t\<in>set pre. projr (objective (Some t)) \<le> projr (objective (Some s))"
      and less: "\<forall>t\<in>set post. projr (objective (Some t)) < projr (objective (Some s))"
    by (elim exE conjE)
  let ?v = "projr (objective (Some s))" and ?i = "int (length pre) + 1"
  have 1: "1 \<le> ?i" by simp
  have 2: "?i \<le> int (length solutions)" by (simp add: sp)
  have 3: "solutions ! nat (?i - 1) = s" by (simp add: sp)
  have "s \<in> set solutions" by (simp add: sp)
  with c have 4: "objective (Some s) = Inr ?v" by (intro objective_Inr_projr) simp
  have 5: "\<forall>j<length solutions. \<exists>w. objective (Some (solutions ! j)) = Inr w \<and> w \<le> ?v \<and>
                (?i \<le> int j \<longrightarrow> w < ?v)"
  proof (intro allI impI)
    fix j assume j: "j < length solutions"
    let ?t = "solutions ! j"
    from j have "?t \<in> set solutions" by simp
    with c have o: "objective (Some ?t) = Inr (projr (objective (Some ?t)))"
      by (intro objective_Inr_projr) simp
    consider "j < length pre" | "j = length pre" | "length pre < j" by linarith
    then have "projr (objective (Some ?t)) \<le> ?v \<and> (?i \<le> int j \<longrightarrow> projr (objective (Some ?t)) < ?v)"
    proof cases
      case 1
      then have "?t \<in> set pre" by (simp add: sp nth_append)
      with le 1 show ?thesis by simp
    next
      case 2
      then show ?thesis by (simp add: sp)
    next
      case 3
      then have "?t = post ! (j - length pre - 1)" by (simp add: sp nth_append nth_Cons')
      moreover have "j - length pre - 1 < length post" using j 3 by (simp add: sp)
      ultimately have "?t \<in> set post" by simp
      with less show ?thesis by (simp add: less_imp_le)
    qed
    with o show "\<exists>w. objective (Some ?t) = Inr w \<and> w \<le> ?v \<and> (?i \<le> int j \<longrightarrow> w < ?v)"
      by (intro exI [of _ "projr (objective (Some ?t))"]) simp
  qed
  show ?thesis
    by (intro exI [of _ s] exI [of _ ?v] exI [of _ ?i] conjI res 1 2 3 4 5)
qed

theorem select_best_keeps_last_maximal_witness:
  "[wave_b, wave_a] \<noteq> [] \<and>
   complete_assignment csp_instance wave_b \<and> complete_assignment csp_instance wave_a \<and>
   (\<exists>s v i. select_best [wave_b, wave_a] = Inr (Some s, v, i) \<and>
           1 \<le> i \<and> i \<le> int (length [wave_b, wave_a]) \<and> [wave_b, wave_a] ! nat (i - 1) = s \<and>
           objective (Some s) = Inr v \<and>
           (\<forall>j<length [wave_b, wave_a]. \<exists>w. objective (Some ([wave_b, wave_a] ! j)) = Inr w \<and> w \<le> v \<and>
                (i \<le> int j \<longrightarrow> w < v)))"
proof -
  have a: "complete_assignment csp_instance wave_a" by code_simp
  have b: "complete_assignment csp_instance wave_b" by code_simp
  have h1: "[wave_b, wave_a] \<noteq> []" by simp
  have h2: "\<forall>s\<in>set [wave_b, wave_a]. complete_assignment csp_instance s" using a b by simp
  show ?thesis
    using h1 b a select_best_keeps_last_maximal [OF h1 h2] by (intro conjI)
qed

text \<open>
  C5 as stated fails: \<open>wave_a\<close> and \<open>wave_b\<close> both have the objective value \<open>5\<close>;
  with \<open>wave_a\<close> enumerated first, the loop ends with \<open>wave_b\<close> at position 2.
\<close>

theorem select_best_first_maximal_counterexample:
  "select_best [wave_a, wave_b] = Inr (Some wave_b, 5, 2) \<and>
   objective (Some wave_a) = Inr 5 \<and> objective (Some wave_b) = Inr 5 \<and> wave_a \<noteq> wave_b"
  by code_simp

subsection \<open>A model without solutions\<close>


subsection \<open>The search policy\<close>

lemma strict_sorted_list_of_fset: "sorted_wrt (<) (sorted_list_of_fset S)"
  by (simp add: sorted_list_of_fset.rep_eq strict_sorted_iff)

lemma foldl_min_key_split:
  fixes key :: "'a \<Rightarrow> nat"
  shows "\<exists>pre post. x # xs = pre @ foldl (\<lambda>best y. if key y < key best then y else best) x xs # post \<and>
     (\<forall>u\<in>set pre. key (foldl (\<lambda>best y. if key y < key best then y else best) x xs) < key u) \<and>
     (\<forall>u\<in>set post. key (foldl (\<lambda>best y. if key y < key best then y else best) x xs) \<le> key u)"
proof (induction xs rule: rev_induct)
  case Nil
  show ?case by (intro exI [of _ "[]"]) simp
next
  case (snoc y xs)
  let ?m = "foldl (\<lambda>best y. if key y < key best then y else best) x xs"
  from snoc obtain pre post where sp: "x # xs = pre @ ?m # post"
    and a: "\<forall>u\<in>set pre. key ?m < key u" and b: "\<forall>u\<in>set post. key ?m \<le> key u"
    by (elim exE conjE)
  show ?case
  proof (cases "key y < key ?m")
    case True
    have all: "\<forall>u\<in>set (x # xs). key y < key u"
    proof
      fix u assume "u \<in> set (x # xs)"
      then have "u \<in> set pre \<or> u = ?m \<or> u \<in> set post" by (auto simp: sp)
      then show "key y < key u" using a b True by (elim disjE) force+
    qed
    have "x # xs @ [y] = (x # xs) @ y # []" by simp
    with all True show ?thesis
      by (intro exI [of _ "x # xs"] exI [of _ "[]"]) simp
  next
    case False
    have "x # xs @ [y] = pre @ ?m # (post @ [y])" using sp by simp
    with a b False show ?thesis
      by (intro exI [of _ pre] exI [of _ "post @ [y]"]) auto
  qed
qed

lemma min_key_split:
  assumes "xs \<noteq> []"
  shows "\<exists>m pre post. min_key key xs = Inr m \<and> xs = pre @ m # post \<and>
           (\<forall>u\<in>set pre. key m < key u) \<and> (\<forall>u\<in>set post. key m \<le> key u)"
proof -
  from assms obtain y ys where xs: "xs = y # ys" by (cases xs) simp_all
  let ?m = "foldl (\<lambda>best y. if key y < key best then y else best) y ys"
  from foldl_min_key_split [of y ys key] obtain pre post
    where sp: "y # ys = pre @ ?m # post"
      and a: "\<forall>u\<in>set pre. key ?m < key u" and b: "\<forall>u\<in>set post. key ?m \<le> key u"
    by (elim exE conjE)
  have m: "min_key key xs = Inr ?m" by (simp add: xs)
  show ?thesis
    unfolding xs [symmetric] using sp a b
    by (intro exI [of _ ?m] exI [of _ pre] exI [of _ post] conjI m) (simp_all add: xs)
qed

lemma unassigned_in_domains: "v \<in> set (unassigned csp a) \<Longrightarrow> \<exists>d. map_of (domains csp) v = Some d"
proof -
  assume "v \<in> set (unassigned csp a)"
  then have "v \<in> fst ` set (domains csp)" by (simp add: unassigned_def keys_def)
  then have "map_of (domains csp) v \<noteq> None" by (simp add: map_of_eq_None_iff)
  then show ?thesis by blast
qed

declare backtracking.simps [simp del]

lemma backtracking_done:
  "length assignment = length (domains csp) \<Longrightarrow> backtracking csp assignment = Inr [assignment]"
  by (subst backtracking.simps) simp

lemma backtracking_step:
  assumes "length assignment \<noteq> length (domains csp)"
    and "min_key (domain_size csp) (unassigned csp assignment) = Inr var"
    and "map_of (domains csp) var = Some d"
  shows "backtracking csp assignment =
       yield_from_all
         (map (\<lambda>val. case consistent csp (AList.update var val assignment) of
                       Inl e \<Rightarrow> Inl e
                     | Inr ok \<Rightarrow>
                         if ok then backtracking csp (AList.update var val assignment) else Inr [])
            (sorted_list_of_fset d))"
  by (subst backtracking.simps) (simp add: assms getitem_def Let_def)



subsection \<open>The consistency check\<close>

lemma those_map_Some:
  "(\<And>v. v \<in> set vs \<Longrightarrow> m v = Some (g v)) \<Longrightarrow> those (map m vs) = Some (map g vs)"
  by (induction vs) simp_all

lemma those_map_None:
  "v \<in> set vs \<Longrightarrow> m v = None \<Longrightarrow> those (map m vs) = None"
  by (induction vs) (auto split: option.splits)

lemma holds_agree:
  assumes "\<And>v. v \<in> set (scope con) \<Longrightarrow> map_of a v = map_of a' v"
  shows "holds con a = holds con a'"
proof -
  have eq: "map (map_of a) (scope con) = map (map_of a') (scope con)"
    using assms by simp
  show ?thesis unfolding holds_def eq ..
qed

lemma consistent_loop_covered:
  "\<forall>v\<in>set (scope con). v \<in> set (keys a) \<Longrightarrow>
   consistent_loop (con # cons) a =
     (case holds con a of
        Inl e \<Rightarrow> Inl e
      | Inr ok \<Rightarrow> if ok then consistent_loop cons a else Inr False)"
  by simp

lemma consistent_loop_skipped:
  "\<not> (\<forall>v\<in>set (scope con). v \<in> set (keys a)) \<Longrightarrow>
   consistent_loop (con # cons) a = consistent_loop cons a"
  by (simp only: consistent_loop.simps if_False)

lemma consistent_loop_True_iff:
  "consistent_loop cons a = Inr True \<longleftrightarrow>
     (\<forall>con\<in>set cons. (\<forall>v\<in>set (scope con). v \<in> set (keys a)) \<longrightarrow> holds con a = Inr True)"
proof (induction cons)
  case Nil
  show ?case by simp
next
  case (Cons con cons)
  show ?case
  proof (cases "\<forall>v\<in>set (scope con). v \<in> set (keys a)")
    case False
    show ?thesis
      unfolding consistent_loop_skipped [OF False] Cons.IH using False by auto
  next
    case True
    show ?thesis
    proof (cases "holds con a")
      case (Inl e)
      show ?thesis
        unfolding consistent_loop_covered [OF True] using True Inl by auto
    next
      case (Inr b)
      show ?thesis
        unfolding consistent_loop_covered [OF True] using True Inr Cons.IH by (cases b) auto
    qed
  qed
qed

lemma consistent_True_iff:
  "consistent csp a = Inr True \<longleftrightarrow>
     (\<forall>con\<in>set (constraints csp).
        (\<forall>v\<in>set (scope con). v \<in> set (keys a)) \<longrightarrow> holds con a = Inr True)"
  unfolding consistent_def by (rule consistent_loop_True_iff)

lemma consistent_loop_total:
  assumes "\<And>con. con \<in> set cons \<Longrightarrow> \<forall>v\<in>set (scope con). v \<in> set (keys a) \<Longrightarrow>
             \<exists>b. holds con a = Inr b"
  shows "\<exists>b. consistent_loop cons a = Inr b"
  using assms
proof (induction cons)
  case Nil
  show ?case by (intro exI [of _ True]) simp
next
  case (Cons con cons)
  then have ih: "\<exists>b. consistent_loop cons a = Inr b" by simp
  show ?case
  proof (cases "\<forall>v\<in>set (scope con). v \<in> set (keys a)")
    case False
    show ?thesis
      unfolding consistent_loop_skipped [OF False] by (rule ih)
  next
    case True
    from Cons.prems [of con] True obtain b where b: "holds con a = Inr b" by auto
    show ?thesis
      unfolding consistent_loop_covered [OF True] using ih b by (cases b) auto
  qed
qed

subsection \<open>Soundness of the search\<close>

lemma yield_from_all_Inr:
  "yield_from_all rs = Inr xs \<Longrightarrow> x \<in> set xs \<Longrightarrow> \<exists>ys. Inr ys \<in> set rs \<and> x \<in> set ys"
proof (induction rs arbitrary: xs)
  case Nil
  then show ?case by simp
next
  case (Cons r rs)
  from Cons.prems(1) obtain ys zs where r: "r = Inr ys" and z: "yield_from_all rs = Inr zs"
    and xs: "xs = ys @ zs"
    by (auto split: sum.splits)
  from Cons.prems(2) xs have "x \<in> set ys \<or> x \<in> set zs" by simp
  then show ?case
  proof
    assume "x \<in> set ys"
    then show ?thesis using r by (intro exI [of _ ys]) simp
  next
    assume "x \<in> set zs"
    from Cons.IH [OF z this] obtain ws where "Inr ws \<in> set rs" "x \<in> set ws" by (elim exE conjE)
    then show ?thesis by (intro exI [of _ ws]) simp
  qed
qed

lemma unassigned_decreases:
  "var \<in> set (unassigned csp a) \<Longrightarrow>
   length (unassigned csp (AList.update var val a)) < length (unassigned csp a)"
  by (simp add: unassigned_update length_filter_neq_less)

lemma backtracking_cases:
  obtains (leaf) "length a = length (domains csp)" "backtracking csp a = Inr [a]"
  | (stuck) "length a \<noteq> length (domains csp)" "unassigned csp a = []"
      "backtracking csp a = Inl ValueError"
  | (step) var d where "length a \<noteq> length (domains csp)" "var \<in> set (unassigned csp a)"
      "min_key (domain_size csp) (unassigned csp a) = Inr var"
      "map_of (domains csp) var = Some d"
      "backtracking csp a =
         yield_from_all
           (map (\<lambda>val. case consistent csp (AList.update var val a) of
                         Inl e \<Rightarrow> Inl e
                       | Inr ok \<Rightarrow> if ok then backtracking csp (AList.update var val a) else Inr [])
              (sorted_list_of_fset d))"
proof (cases "length a = length (domains csp)")
  case True
  then show ?thesis using backtracking_done [OF True] by (rule leaf)
next
  case False
  show ?thesis
  proof (cases "unassigned csp a = []")
    case True
    have "backtracking csp a = Inl ValueError"
      by (subst backtracking.simps) (simp add: False True)
    with False True show ?thesis by (rule stuck)
  next
    case ne: False
    from min_key_split [OF ne, of "domain_size csp"] obtain var pre post
      where m: "min_key (domain_size csp) (unassigned csp a) = Inr var"
        and sp: "unassigned csp a = pre @ var # post"
      by (elim exE conjE)
    have v: "var \<in> set (unassigned csp a)" by (simp add: sp)
    from unassigned_in_domains [OF v] obtain d where d: "map_of (domains csp) var = Some d" ..
    show ?thesis
      using False v m d backtracking_step [OF False m d] by (rule step)
  qed
qed

lemma partial_ok_update:
  assumes ok: "partial_ok csp a" and v: "var \<in> set (unassigned csp a)"
    and d: "map_of (domains csp) var = Some d" and x: "val |\<in>| d"
  shows "partial_ok csp (AList.update var val a)"
proof -
  from v have nk: "var \<notin> fst ` set a" by (simp add: unassigned_def keys_def)
  then have upd: "AList.update var val a = a @ [(var, val)]"
    by (induction a) auto
  from ok nk show ?thesis
    unfolding upd partial_ok_def keys_def using d x by auto
qed

lemma backtracking_sound_gen:
  assumes "backtracking csp a = Inr sols" and "sol \<in> set sols"
  shows "length sol = length (domains csp) \<and> (sol = a \<or> consistent csp sol = Inr True) \<and>
         (partial_ok csp a \<longrightarrow> partial_ok csp sol)"
  using assms
proof (induction "length (unassigned csp a)" arbitrary: a sols rule: less_induct)
  case less
  show ?case
  proof (cases rule: backtracking_cases [where a = a and csp = csp])
    case leaf
    with less.prems have "sol = a" by auto
    with leaf show ?thesis by simp
  next
    case stuck
    with less.prems show ?thesis by simp
  next
    case (step var d)
    let ?branch = "\<lambda>val. case consistent csp (AList.update var val a) of
                         Inl e \<Rightarrow> Inl e
                       | Inr ok \<Rightarrow> if ok then backtracking csp (AList.update var val a) else Inr []"
    from less.prems(1) have "yield_from_all (map ?branch (sorted_list_of_fset d)) = Inr sols"
      by (simp only: step(5))
    from yield_from_all_Inr [OF this less.prems(2)] obtain ys
      where "Inr ys \<in> set (map ?branch (sorted_list_of_fset d))" and sy: "sol \<in> set ys"
      by (elim exE conjE)
    then obtain val where val: "val |\<in>| d" and br: "?branch val = Inr ys"
      by auto
    let ?na = "AList.update var val a"
    from br sy have con: "consistent csp ?na = Inr True" and rec: "backtracking csp ?na = Inr ys"
      by (auto split: sum.splits if_splits)
    from less.hyps [OF unassigned_decreases [OF step(2)] rec sy]
    have ih: "length sol = length (domains csp)" "sol = ?na \<or> consistent csp sol = Inr True"
      "partial_ok csp ?na \<longrightarrow> partial_ok csp sol"
      by simp_all
    from ih(2) con have "consistent csp sol = Inr True" by auto
    moreover have "partial_ok csp a \<longrightarrow> partial_ok csp sol"
      using ih(3) partial_ok_update [OF _ step(2) step(4) val] by blast
    ultimately show ?thesis using ih(1) by simp
  qed
qed

lemma partial_ok_keys: "partial_ok csp a \<Longrightarrow> set (keys a) \<subseteq> set (keys (domains csp))"
proof
  fix v assume ok: "partial_ok csp a" and "v \<in> set (keys a)"
  then obtain x where "(v, x) \<in> set a" by (auto simp: keys_def)
  with ok obtain d where "map_of (domains csp) v = Some d" by (auto simp: partial_ok_def)
  then have "(v, d) \<in> set (domains csp)" by (rule map_of_SomeD)
  then show "v \<in> set (keys (domains csp))" by (force simp: keys_def)
qed

lemma partial_ok_complete:
  assumes dk: "distinct (keys (domains csp))" and ok: "partial_ok csp a"
    and len: "length a = length (domains csp)"
  shows "complete_assignment csp a"
proof -
  from ok have da: "distinct (keys a)" by (simp add: partial_ok_def)
  have sub: "set (keys a) \<subseteq> set (keys (domains csp))" using ok by (rule partial_ok_keys)
  have "card (set (keys a)) = length (keys a)" using da by (rule distinct_card)
  moreover have "card (set (keys (domains csp))) = length (keys (domains csp))"
    using dk by (rule distinct_card)
  moreover have "length (keys a) = length (keys (domains csp))"
    using len by (simp add: keys_def)
  ultimately have "card (set (keys a)) = card (set (keys (domains csp)))" by simp
  with sub have eq: "set (keys a) = set (keys (domains csp))"
    by (intro card_subset_eq) simp_all
  have all: "list_all (\<lambda>(v, d). case map_of a v of None \<Rightarrow> False | Some x \<Rightarrow> x |\<in>| d) (domains csp)"
    unfolding list_all_iff
  proof (intro ballI, clarify)
    fix v d assume vd: "(v, d) \<in> set (domains csp)"
    then have "v \<in> set (keys a)" unfolding eq by (force simp: keys_def)
    then obtain x where x: "(v, x) \<in> set a" by (auto simp: keys_def)
    with da have m: "map_of a v = Some x" by (simp add: keys_def)
    from ok x obtain d' where d': "map_of (domains csp) v = Some d'" "x |\<in>| d'"
      by (auto simp: partial_ok_def)
    from dk vd have "map_of (domains csp) v = Some d" by (simp add: keys_def)
    with d' have "x |\<in>| d" by simp
    with m show "case map_of a v of None \<Rightarrow> False | Some x \<Rightarrow> x |\<in>| d" by simp
  qed
  from da eq all show ?thesis by (simp add: complete_assignment_def)
qed

lemma partial_ok_Nil: "partial_ok csp []"
  by (simp add: partial_ok_def keys_def)

text \<open>
  C2, as the code has it: for a model with at least one variable (or whose empty
  assignment is consistent), every assignment that \<open>backtracking\<close> emits from the empty
  assignment is complete and the consistency check of the model returns true on it: every
  constraint whose scope it binds evaluates to true.
\<close>

theorem backtracking_sound:
  assumes dk: "distinct (keys (domains csp))"
    and start: "domains csp \<noteq> [] \<or> consistent csp [] = Inr True"
    and run: "backtracking csp [] = Inr sols" and sol: "sol \<in> set sols"
  shows "complete_assignment csp sol \<and> consistent csp sol = Inr True \<and>
         (\<forall>con\<in>set (constraints csp).
            (\<forall>v\<in>set (scope con). v \<in> set (keys sol)) \<longrightarrow> holds con sol = Inr True)"
proof -
  from backtracking_sound_gen [OF run sol] partial_ok_Nil [of csp]
  have len: "length sol = length (domains csp)"
    and c: "sol = [] \<or> consistent csp sol = Inr True" and ok: "partial_ok csp sol"
    by simp_all
  have con: "consistent csp sol = Inr True"
  proof (cases "sol = []")
    case True
    with len have "domains csp = []" by simp
    with start True show ?thesis by simp
  next
    case False
    with c show ?thesis by simp
  qed
  have "complete_assignment csp sol" using dk ok len by (rule partial_ok_complete)
  with con show ?thesis by (simp add: consistent_True_iff [symmetric])
qed

theorem backtracking_sound_witness:
  "distinct (keys (domains ab_model)) \<and> domains ab_model \<noteq> [] \<and>
   backtracking ab_model [] = Inr [[(''A'', 0), (''B'', 1)], [(''A'', 1), (''B'', 0)]] \<and>
   [(''A'', 0), (''B'', 1)] \<in> set [[(''A'', 0), (''B'', 1)], [(''A'', 1), (''B'', 0 :: int)]] \<and>
   complete_assignment ab_model [(''A'', 0), (''B'', 1)] \<and>
   consistent ab_model [(''A'', 0), (''B'', 1)] = Inr True \<and>
   holds (hd (constraints ab_model)) [(''A'', 0), (''B'', 1)] = Inr True"
proof -
  have h1: "distinct (keys (domains ab_model))" by code_simp
  have ne: "domains ab_model \<noteq> []" by (simp add: ab_model_def)
  then have h2: "domains ab_model \<noteq> [] \<or> consistent ab_model [] = Inr True" by (rule disjI1)
  have h3: "backtracking ab_model [] = Inr [[(''A'', 0), (''B'', 1)], [(''A'', 1), (''B'', 0)]]"
    by code_simp
  have h4: "[(''A'', 0), (''B'', 1)] \<in> set [[(''A'', 0), (''B'', 1)], [(''A'', 1), (''B'', 0 :: int)]]"
    by simp
  have c: "hd (constraints ab_model) \<in> set (constraints ab_model)"
    and v: "\<forall>v\<in>set (scope (hd (constraints ab_model))). v \<in> set (keys [(''A'', 0 :: int), (''B'', 1)])"
    by (simp_all add: ab_model_def keys_def)
  from backtracking_sound [OF h1 h2 h3 h4] c v
  have "complete_assignment ab_model [(''A'', 0), (''B'', 1)]"
    and "consistent ab_model [(''A'', 0), (''B'', 1)] = Inr True"
    and "holds (hd (constraints ab_model)) [(''A'', 0), (''B'', 1)] = Inr True"
    by blast+
  with h1 ne h3 h4 show ?thesis by (intro conjI)
qed

text \<open>
  C2 as stated fails on a model without variables: the search emits the empty assignment
  without ever calling the consistency check, which returns false on it.
\<close>

theorem backtracking_unsound_without_variables:
  "backtracking empty_model [] = Inr [[]] \<and> consistent empty_model [] = Inr False"
  by code_simp

subsection \<open>Completeness of the search\<close>

lemma yield_from_all_map_Inr:
  "yield_from_all (map f xs) = Inr ys \<Longrightarrow>
   (\<forall>x\<in>set xs. \<exists>zs. f x = Inr zs) \<and> ys = concat (map (\<lambda>x. projr (f x)) xs)"
proof (induction xs arbitrary: ys)
  case Nil
  then show ?case by simp
next
  case (Cons x xs)
  from Cons.prems obtain zs ws where x: "f x = Inr zs"
    and r: "yield_from_all (map f xs) = Inr ws" and ys: "ys = zs @ ws"
    by (auto split: sum.splits)
  from Cons.IH [OF r] x ys show ?case by simp
qed

lemma yield_from_all_map_total:
  "(\<And>x. x \<in> set xs \<Longrightarrow> \<exists>zs. f x = Inr zs) \<Longrightarrow> \<exists>ys. yield_from_all (map f xs) = Inr ys"
proof (induction xs)
  case Nil
  show ?case by simp
next
  case (Cons x xs)
  from Cons.prems [of x] obtain zs where x: "f x = Inr zs" by auto
  from Cons.IH Cons.prems obtain ws where r: "yield_from_all (map f xs) = Inr ws" by auto
  show ?case by (intro exI [of _ "zs @ ws"]) (simp add: x r)
qed

lemma distinct_concat_map:
  assumes "distinct xs"
    and "\<And>x. x \<in> set xs \<Longrightarrow> distinct (h x)"
    and "\<And>x y. x \<in> set xs \<Longrightarrow> y \<in> set xs \<Longrightarrow> x \<noteq> y \<Longrightarrow> set (h x) \<inter> set (h y) = {}"
  shows "distinct (concat (map h xs))"
  using assms
proof (induction xs)
  case Nil
  show ?case by simp
next
  case (Cons x xs)
  have 1: "distinct (h x)" using Cons.prems(2) by simp
  have 2: "distinct (concat (map h xs))"
    using Cons.prems by (intro Cons.IH) simp_all
  have 3: "set (h x) \<inter> set (h y) = {}" if "y \<in> set xs" for y
    using Cons.prems(1) that by (intro Cons.prems(3)) auto
  then have "set (h x) \<inter> (\<Union>y\<in>set xs. set (h y)) = {}" by blast
  with 1 2 show ?case by simp
qed

lemma dom_map_of_keys: "dom (map_of a) = set (keys a)"
  by (simp add: dom_map_of_conv_image_fst keys_def)

lemma map_of_update_fresh:
  "var \<notin> set (keys a) \<Longrightarrow> map_of a \<subseteq>\<^sub>m map_of (AList.update var x a)"
  by (auto simp: update_conv' map_le_def dom_map_of_keys [symmetric])

lemma extensionsI:
  "complete_assignment csp s \<Longrightarrow> satisfies_all csp s \<Longrightarrow> map_of a \<subseteq>\<^sub>m map_of s \<Longrightarrow>
   map_of s \<in> extensions csp a"
  unfolding extensions_def by (intro imageI CollectI conjI)

lemma extensionsE:
  assumes "m \<in> extensions csp a"
  obtains s where "complete_assignment csp s" "satisfies_all csp s" "map_of a \<subseteq>\<^sub>m map_of s"
    "m = map_of s"
proof -
  from assms have "\<exists>s. m = map_of s \<and> complete_assignment csp s \<and> satisfies_all csp s \<and>
      map_of a \<subseteq>\<^sub>m map_of s"
    unfolding extensions_def image_iff by blast
  then show thesis using that by (elim exE conjE)
qed

lemma extensions_update_sub:
  assumes "var \<notin> set (keys a)"
  shows "extensions csp (AList.update var x a) \<subseteq> extensions csp a"
proof
  fix m assume "m \<in> extensions csp (AList.update var x a)"
  then obtain s where s: "complete_assignment csp s" "satisfies_all csp s"
    "map_of (AList.update var x a) \<subseteq>\<^sub>m map_of s" "m = map_of s"
    by (rule extensionsE)
  have "map_of a \<subseteq>\<^sub>m map_of s"
    using map_of_update_fresh [OF assms, of x] s(3) by (rule map_le_trans)
  with s show "m \<in> extensions csp a" by (simp add: extensionsI)
qed

lemma extensions_binds:
  assumes "m \<in> extensions csp (AList.update var z a)"
  shows "m var = Some z"
proof -
  from assms obtain s where s: "map_of (AList.update var z a) \<subseteq>\<^sub>m map_of s" "m = map_of s"
    by (rule extensionsE)
  have "var \<in> dom (map_of (AList.update var z a))" by (simp add: update_conv')
  with s(1) have "map_of (AList.update var z a) var = map_of s var"
    unfolding map_le_def by (rule bspec)
  then show ?thesis by (simp add: update_conv' s(2))
qed

lemma extensions_split:
  assumes nk: "var \<notin> set (keys a)" and d: "(var, d) \<in> set (domains csp)"
  shows "extensions csp a = (\<Union>x\<in>fset d. extensions csp (AList.update var x a))"
proof (intro equalityI subsetI)
  fix m assume "m \<in> extensions csp a"
  then obtain s where s: "complete_assignment csp s" "satisfies_all csp s" "map_of a \<subseteq>\<^sub>m map_of s"
    and m: "m = map_of s" by (rule extensionsE)
  from complete_assignmentD [OF s(1) d] obtain x where x: "map_of s var = Some x" "x |\<in>| d"
    by (elim exE conjE)
  have "map_of (AList.update var x a) \<subseteq>\<^sub>m map_of s"
    using s(3) x(1) by (simp add: update_conv' map_le_def)
  with s have "m \<in> extensions csp (AList.update var x a)" unfolding m by (intro extensionsI)
  with x(2) show "m \<in> (\<Union>x\<in>fset d. extensions csp (AList.update var x a))"
    by (intro UN_I [of x])
next
  fix m assume "m \<in> (\<Union>x\<in>fset d. extensions csp (AList.update var x a))"
  then obtain x where "m \<in> extensions csp (AList.update var x a)" by (elim UN_E)
  then show "m \<in> extensions csp a" using extensions_update_sub [OF nk] by (rule rev_subsetD)
qed

lemma extensions_disjoint:
  assumes "x \<noteq> y"
  shows "extensions csp (AList.update var x a) \<inter> extensions csp (AList.update var y a) = {}"
proof (rule ccontr)
  assume "extensions csp (AList.update var x a) \<inter> extensions csp (AList.update var y a) \<noteq> {}"
  then obtain m where mx: "m \<in> extensions csp (AList.update var x a)"
    and my: "m \<in> extensions csp (AList.update var y a)" by (auto simp: ex_in_conv [symmetric])
  from mx have "m var = Some x" by (rule extensions_binds)
  moreover from my have "m var = Some y" by (rule extensions_binds)
  ultimately show False using assms by simp
qed

lemma extensions_pruned:
  assumes "consistent csp a \<noteq> Inr True"
  shows "extensions csp a = {}"
proof (rule ccontr)
  assume "extensions csp a \<noteq> {}"
  then obtain m where "m \<in> extensions csp a" by (auto simp: ex_in_conv [symmetric])
  then obtain s where s: "satisfies_all csp s" "map_of a \<subseteq>\<^sub>m map_of s" by (rule extensionsE)
  from assms have "\<exists>con\<in>set (constraints csp).
      (\<forall>v\<in>set (scope con). v \<in> set (keys a)) \<and> holds con a \<noteq> Inr True"
    unfolding consistent_True_iff by simp
  then obtain con where con: "con \<in> set (constraints csp)"
    and cov: "\<forall>v\<in>set (scope con). v \<in> set (keys a)" and h: "holds con a \<noteq> Inr True"
    by (elim bexE conjE)
  have "map_of a v = map_of s v" if "v \<in> set (scope con)" for v
  proof -
    from cov that have "v \<in> dom (map_of a)" by (simp add: dom_map_of_keys)
    with s(2) show ?thesis unfolding map_le_def by (rule bspec)
  qed
  then have "holds con a = holds con s" by (rule holds_agree)
  moreover from s(1) con have "holds con s = Inr True"
    by (simp add: satisfies_all_def list_all_iff)
  ultimately show False using h by simp
qed

lemma extensions_leaf:
  assumes wf: "well_formed csp" and ok: "partial_ok csp a"
    and len: "length a = length (domains csp)" and con: "consistent csp a = Inr True"
  shows "extensions csp a = {map_of a}"
proof -
  from wf have dk: "distinct (keys (domains csp))" by (simp add: well_formed_def)
  have c: "complete_assignment csp a" using dk ok len by (rule partial_ok_complete)
  then have ka: "set (keys a) = set (keys (domains csp))" by (simp add: complete_assignment_def)
  have sat: "satisfies_all csp a"
    unfolding satisfies_all_def list_all_iff
  proof
    fix con assume cin: "con \<in> set (constraints csp)"
    with wf have "set (scope con) \<subseteq> set (keys a)" unfolding ka by (simp add: well_formed_def)
    then have "\<forall>v\<in>set (scope con). v \<in> set (keys a)" by (simp add: subset_iff)
    with con cin show "holds con a = Inr True" unfolding consistent_True_iff by simp
  qed
  have in_ext: "map_of a \<in> extensions csp a"
    using c sat by (rule extensionsI) simp
  have only: "m = map_of a" if "m \<in> extensions csp a" for m
  proof -
    from that obtain s where s: "complete_assignment csp s" "map_of a \<subseteq>\<^sub>m map_of s"
      and m: "m = map_of s" by (rule extensionsE)
    from s(1) have "set (keys s) = set (keys a)" unfolding ka by (simp add: complete_assignment_def)
    then have "dom (map_of s) = dom (map_of a)" by (simp only: dom_map_of_keys)
    with s(2) have "map_of s \<subseteq>\<^sub>m map_of a" by (simp add: map_le_def)
    with s(2) have "map_of s = map_of a" by (intro map_le_antisym)
    with m show ?thesis by simp
  qed
  show ?thesis
  proof (intro equalityI subsetI)
    fix m assume "m \<in> extensions csp a"
    then show "m \<in> {map_of a}" by (simp add: only)
  next
    fix m assume "m \<in> {map_of a}"
    then show "m \<in> extensions csp a" using in_ext by simp
  qed
qed

lemma unassigned_not_key: "var \<in> set (unassigned csp a) \<Longrightarrow> var \<notin> set (keys a)"
  by (simp add: unassigned_def)

lemma map_of_domains_mem:
  "map_of (domains csp) var = Some d \<Longrightarrow> (var, d) \<in> set (domains csp)"
  by (rule map_of_SomeD)

lemma backtracking_exact_gen:
  assumes wf: "well_formed csp"
  shows "partial_ok csp a \<Longrightarrow>
         (length a = length (domains csp) \<longrightarrow> consistent csp a = Inr True) \<Longrightarrow>
         backtracking csp a = Inr sols \<Longrightarrow>
         distinct (map map_of sols) \<and> map_of ` set sols = extensions csp a"
proof (induction "length (unassigned csp a)" arbitrary: a sols rule: less_induct)
  case less
  note ok = less.prems(1) and start = less.prems(2) and run = less.prems(3)
  show ?case
  proof (cases rule: backtracking_cases [where a = a and csp = csp])
    case leaf
    from run leaf(2) have sols: "sols = [a]" by simp
    from start leaf(1) have "consistent csp a = Inr True" by simp
    from extensions_leaf [OF wf ok leaf(1) this] show ?thesis by (simp add: sols)
  next
    case stuck
    with run show ?thesis by simp
  next
    case (step var d)
    let ?na = "\<lambda>val. AList.update var val a"
    let ?branch = "\<lambda>val. case consistent csp (?na val) of
                         Inl e \<Rightarrow> Inl e
                       | Inr ok \<Rightarrow> if ok then backtracking csp (?na val) else Inr []"
    let ?g = "\<lambda>val. projr (?branch val)"
    let ?vals = "sorted_list_of_fset d"
    from run have y: "yield_from_all (map ?branch ?vals) = Inr sols" by (simp only: step(5))
    from yield_from_all_map_Inr [OF y]
    have all: "\<forall>val\<in>set ?vals. \<exists>zs. ?branch val = Inr zs"
      and sols: "sols = concat (map ?g ?vals)" by simp_all
    have nk: "var \<notin> set (keys a)" using step(2) by (rule unassigned_not_key)
    have P: "distinct (map map_of (?g val)) \<and> map_of ` set (?g val) = extensions csp (?na val)"
      if val: "val |\<in>| d" for val
    proof -
      from all val obtain zs where zs: "?branch val = Inr zs" by auto
      then obtain b where b: "consistent csp (?na val) = Inr b" by (auto split: sum.splits)
      show ?thesis
      proof (cases b)
        case True
        with zs b have rec: "backtracking csp (?na val) = Inr zs" by simp
        have ok': "partial_ok csp (?na val)" using ok step(2) step(4) val by (rule partial_ok_update)
        have "distinct (map map_of zs) \<and> map_of ` set zs = extensions csp (?na val)"
          using unassigned_decreases [OF step(2)] ok' _ rec
          by (rule less.hyps) (simp add: b True)
        then show ?thesis by (simp add: zs)
      next
        case False
        with zs b have "zs = []" by simp
        moreover have "extensions csp (?na val) = {}"
          by (rule extensions_pruned) (simp add: b False)
        ultimately show ?thesis by (simp add: zs)
      qed
    qed
    have set_eq: "map_of ` set sols = extensions csp a"
    proof -
      have "map_of ` set sols = (\<Union>val\<in>fset d. map_of ` set (?g val))"
        unfolding sols by (simp add: image_UN)
      also have "\<dots> = (\<Union>val\<in>fset d. extensions csp (?na val))"
        using P by simp
      also have "\<dots> = extensions csp a"
        using nk map_of_domains_mem [OF step(4)] by (rule extensions_split [symmetric])
      finally show ?thesis .
    qed
    have "distinct (concat (map (\<lambda>val. map map_of (?g val)) ?vals))"
    proof (rule distinct_concat_map)
      show "distinct ?vals" using strict_sorted_list_of_fset [of d] by (simp add: strict_sorted_iff)
    next
      fix val assume "val \<in> set ?vals"
      then show "distinct (map map_of (?g val))" using P by simp
    next
      fix x y assume "x \<in> set ?vals" "y \<in> set ?vals" "x \<noteq> y"
      then have "extensions csp (?na x) \<inter> extensions csp (?na y) = {}"
        by (intro extensions_disjoint)
      moreover have "set (map map_of (?g x)) = extensions csp (?na x)"
        using P [of x] \<open>x \<in> set ?vals\<close> by simp
      moreover have "set (map map_of (?g y)) = extensions csp (?na y)"
        using P [of y] \<open>y \<in> set ?vals\<close> by simp
      ultimately show "set (map map_of (?g x)) \<inter> set (map map_of (?g y)) = {}" by simp
    qed
    then have "distinct (map map_of sols)"
      unfolding sols by (simp add: map_concat comp_def)
    with set_eq show ?thesis by simp
  qed
qed

lemma partial_ok_lookup:
  assumes ok: "partial_ok csp a" and v: "v \<in> set (keys a)"
  shows "\<exists>x d. map_of a v = Some x \<and> map_of (domains csp) v = Some d \<and> x |\<in>| d"
proof -
  from v obtain x where x: "(v, x) \<in> set a" by (auto simp: keys_def)
  from ok have "distinct (map fst a)" by (simp add: partial_ok_def keys_def)
  with x have m: "map_of a v = Some x" by simp
  from ok x obtain d where "map_of (domains csp) v = Some d" "x |\<in>| d"
    by (auto simp: partial_ok_def)
  with m show ?thesis by (intro exI [of _ x] exI [of _ d]) simp
qed

lemma holds_total:
  assumes tot: "conditions_total csp" and con: "con \<in> set (constraints csp)"
    and ok: "partial_ok csp a" and cov: "\<forall>v\<in>set (scope con). v \<in> set (keys a)"
  shows "\<exists>b. holds con a = Inr b"
proof -
  let ?g = "\<lambda>v. the (map_of a v)"
  let ?Q = "\<lambda>v x. \<exists>d. map_of (domains csp) v = Some d \<and> x |\<in>| d"
  have look: "map_of a v = Some (?g v) \<and> ?Q v (?g v)" if "v \<in> set (scope con)" for v
  proof -
    from cov that have "v \<in> set (keys a)" by (rule bspec)
    from partial_ok_lookup [OF ok this] obtain x d
      where x: "map_of a v = Some x" and d: "map_of (domains csp) v = Some d" "x |\<in>| d"
      by (elim exE conjE)
    have g: "?g v = x" by (simp add: x)
    show ?thesis unfolding g using x d by (intro conjI exI [of _ d])
  qed
  have th: "those (map (map_of a) (scope con)) = Some (map ?g (scope con))"
  proof (rule those_map_Some)
    fix v assume "v \<in> set (scope con)"
    from look [OF this] show "map_of a v = Some (?g v)" by (rule conjunct1)
  qed
  have l2: "list_all2 ?Q (scope con) (map ?g (scope con))"
    unfolding list_all2_map2 list_all2_same
  proof
    fix v assume "v \<in> set (scope con)"
    from look [OF this] show "?Q v (?g v)" by (rule conjunct2)
  qed
  from tot con have "\<forall>vals. list_all2 ?Q (scope con) vals \<longrightarrow> (\<exists>b. condition con vals = Inr b)"
    unfolding conditions_total_def by (rule bspec)
  then have "list_all2 ?Q (scope con) (map ?g (scope con)) \<longrightarrow>
      (\<exists>b. condition con (map ?g (scope con)) = Inr b)"
    by (rule spec)
  with l2 have "\<exists>b. condition con (map ?g (scope con)) = Inr b" by (rule rev_mp)
  then show ?thesis unfolding holds_def th by simp
qed

lemma consistent_total:
  assumes "conditions_total csp" and "partial_ok csp a"
  shows "\<exists>b. consistent csp a = Inr b"
  unfolding consistent_def
  by (rule consistent_loop_total) (rule holds_total [OF assms(1) _ assms(2)])

lemma unassigned_nonempty:
  assumes dk: "distinct (keys (domains csp))" and ok: "partial_ok csp a"
    and len: "length a \<noteq> length (domains csp)"
  shows "unassigned csp a \<noteq> []"
proof
  assume "unassigned csp a = []"
  then have "set (keys (domains csp)) \<subseteq> set (keys a)"
    by (auto simp: unassigned_def filter_empty_conv)
  with partial_ok_keys [OF ok] have eq: "set (keys a) = set (keys (domains csp))" by simp
  from ok have da: "distinct (keys a)" by (simp add: partial_ok_def)
  have "length (keys a) = card (set (keys a))" using da by (simp add: distinct_card)
  also have "\<dots> = card (set (keys (domains csp)))" by (simp only: eq)
  also have "\<dots> = length (keys (domains csp))" using dk by (simp add: distinct_card)
  finally have "length a = length (domains csp)" by (simp add: keys_def)
  with len show False by simp
qed

lemma backtracking_total_gen:
  assumes tot: "conditions_total csp" and dk: "distinct (keys (domains csp))"
  shows "partial_ok csp a \<Longrightarrow> \<exists>sols. backtracking csp a = Inr sols"
proof (induction "length (unassigned csp a)" arbitrary: a rule: less_induct)
  case less
  note ok = less.prems
  show ?case
  proof (cases rule: backtracking_cases [where a = a and csp = csp])
    case leaf
    then show ?thesis by simp
  next
    case stuck
    with unassigned_nonempty [OF dk ok] show ?thesis by simp
  next
    case (step var d)
    let ?na = "\<lambda>val. AList.update var val a"
    let ?branch = "\<lambda>val. case consistent csp (?na val) of
                         Inl e \<Rightarrow> Inl e
                       | Inr ok \<Rightarrow> if ok then backtracking csp (?na val) else Inr []"
    have "\<exists>zs. ?branch val = Inr zs" if "val \<in> set (sorted_list_of_fset d)" for val
    proof -
      from that have val: "val |\<in>| d" by simp
      have ok': "partial_ok csp (?na val)" using ok step(2) step(4) val by (rule partial_ok_update)
      from consistent_total [OF tot ok'] obtain b where b: "consistent csp (?na val) = Inr b" ..
      show ?thesis
      proof (cases b)
        case True
        from less.hyps [OF unassigned_decreases [OF step(2)] ok']
        obtain zs where "backtracking csp (?na val) = Inr zs" ..
        then show ?thesis by (simp add: b True)
      next
        case False
        then show ?thesis by (simp add: b)
      qed
    qed
    then have "\<exists>ys. yield_from_all (map ?branch (sorted_list_of_fset d)) = Inr ys"
      by (rule yield_from_all_map_total)
    then show ?thesis by (simp only: step(5))
  qed
qed

lemma all_assignments_mem:
  assumes "distinct (map fst ds)" and "s \<in> set (all_assignments ds)"
  shows "map fst s = map fst ds \<and> (\<forall>(v, d)\<in>set ds. \<exists>x. map_of s v = Some x \<and> x |\<in>| d)"
  using assms
proof (induction ds arbitrary: s)
  case Nil
  then show ?case by simp
next
  case (Cons p ds)
  obtain v d where p: "p = (v, d)" by (cases p)
  from Cons.prems(2) obtain x s' where x: "x |\<in>| d" and s': "s' \<in> set (all_assignments ds)"
    and s: "s = (v, x) # s'"
    by (auto simp: p)
  from Cons.prems(1) have dist: "distinct (map fst ds)" and nv: "v \<notin> fst ` set ds"
    by (simp_all add: p)
  from Cons.IH [OF dist s'] have ih1: "map fst s' = map fst ds"
    and ih2: "\<forall>(v, d)\<in>set ds. \<exists>x. map_of s' v = Some x \<and> x |\<in>| d"
    by simp_all
  have all: "\<exists>y. map_of s w = Some y \<and> y |\<in>| e" if "(w, e) \<in> set (p # ds)" for w e
  proof (cases "(w, e) = (v, d)")
    case True
    then show ?thesis using x by (simp add: s)
  next
    case False
    with that have in_ds: "(w, e) \<in> set ds" by (auto simp: p)
    then have "w \<noteq> v" using nv by force
    moreover from ih2 in_ds have "\<exists>y. map_of s' w = Some y \<and> y |\<in>| e" by blast
    ultimately show ?thesis by (simp add: s)
  qed
  have "\<forall>(w, e)\<in>set (p # ds). \<exists>y. map_of s w = Some y \<and> y |\<in>| e"
    using all by blast
  moreover have "map fst s = map fst (p # ds)" using ih1 by (simp add: s p)
  ultimately show ?case by (intro conjI)
qed

lemma all_assignments_build:
  assumes "\<forall>(v, d)\<in>set ds. \<exists>x. m v = Some x \<and> x |\<in>| d"
  shows "map (\<lambda>(v, d). (v, the (m v))) ds \<in> set (all_assignments ds)"
  using assms
proof (induction ds)
  case Nil
  show ?case by simp
next
  case (Cons p ds)
  obtain v d where p: "p = (v, d)" by (cases p)
  from Cons.prems obtain x where x: "m v = Some x" "x |\<in>| d" by (auto simp: p)
  from Cons.prems have "\<forall>(v, d)\<in>set ds. \<exists>x. m v = Some x \<and> x |\<in>| d" by simp
  from Cons.IH [OF this] have ih: "map (\<lambda>(v, d). (v, the (m v))) ds \<in> set (all_assignments ds)" .
  show ?case using x ih by (auto simp: p intro!: bexI [of _ x])
qed

lemma map_of_build:
  "map_of (map (\<lambda>(v, d). (v, the (m v))) ds) k =
     (if k \<in> fst ` set ds then Some (the (m k)) else None)"
  by (induction ds) auto

lemma satisfies_all_cong:
  assumes "map_of s = map_of s'"
  shows "satisfies_all csp s = satisfies_all csp s'"
proof -
  have "holds con s = holds con s'" for con :: "('a, 'b) Constraint"
    by (rule holds_agree) (simp add: assms)
  then show ?thesis by (simp add: satisfies_all_def)
qed

lemma brute_force_maps:
  assumes dk: "distinct (keys (domains csp))"
  shows "map_of ` set (brute_force csp) = extensions csp []"
proof (intro equalityI subsetI)
  fix m assume "m \<in> map_of ` set (brute_force csp)"
  then obtain s where m: "m = map_of s" and s: "s \<in> set (brute_force csp)" by (elim imageE)
  from s have mem: "s \<in> set (all_assignments (domains csp))" and sat: "satisfies_all csp s"
    by (simp_all add: brute_force_def)
  from dk have "distinct (map fst (domains csp))" by (simp add: keys_def)
  from all_assignments_mem [OF this mem]
  have k: "map fst s = map fst (domains csp)"
    and v: "\<forall>(v, d)\<in>set (domains csp). \<exists>x. map_of s v = Some x \<and> x |\<in>| d"
    by simp_all
  have ks: "keys s = keys (domains csp)" using k by (simp add: keys_def)
  have "list_all (\<lambda>(v, d). case map_of s v of None \<Rightarrow> False | Some x \<Rightarrow> x |\<in>| d) (domains csp)"
    unfolding list_all_iff using v by fastforce
  then have "complete_assignment csp s"
    unfolding complete_assignment_def ks using dk by simp
  then show "m \<in> extensions csp []"
    unfolding m using sat by (rule extensionsI) simp
next
  fix m assume "m \<in> extensions csp []"
  then obtain s where c: "complete_assignment csp s" and sat: "satisfies_all csp s"
    and m: "m = map_of s" by (rule extensionsE)
  let ?s' = "map (\<lambda>(v, d). (v, the (map_of s v))) (domains csp)"
  have "\<forall>(v, d)\<in>set (domains csp). \<exists>x. map_of s v = Some x \<and> x |\<in>| d"
    using complete_assignmentD [OF c] by blast
  then have mem: "?s' \<in> set (all_assignments (domains csp))" by (rule all_assignments_build)
  from c have ks: "set (keys s) = set (keys (domains csp))" by (simp add: complete_assignment_def)
  have eq: "map_of ?s' = map_of s"
  proof
    fix k
    show "map_of ?s' k = map_of s k"
    proof (cases "k \<in> set (keys (domains csp))")
      case True
      then have "k \<in> set (keys s)" by (simp add: ks)
      then have "k \<in> dom (map_of s)" by (simp add: dom_map_of_keys)
      then obtain x where "map_of s k = Some x" by (auto simp: domIff)
      with True show ?thesis by (simp add: map_of_build keys_def)
    next
      case False
      then have "k \<notin> set (keys s)" by (simp add: ks)
      then have "k \<notin> dom (map_of s)" by (simp add: dom_map_of_keys)
      then have "map_of s k = None" by (simp add: domIff)
      with False show ?thesis by (simp add: map_of_build keys_def)
    qed
  qed
  have "satisfies_all csp ?s'" using sat satisfies_all_cong [OF eq, of csp] by simp
  with mem have "?s' \<in> set (brute_force csp)" by (simp add: brute_force_def)
  then have "map_of ?s' \<in> map_of ` set (brute_force csp)" by (rule imageI)
  then show "m \<in> map_of ` set (brute_force csp)" by (simp only: eq m)
qed

text \<open>
  C1, as the code has it: for a well-formed model whose conditions do not raise on domain
  values and which has at least one variable (or whose empty assignment is consistent),
  \<open>backtracking\<close> returns a sequence of assignments that are pairwise different as
  mappings, and the set of the mappings it emits is the set obtained by brute force:
  all combinations of one domain value per variable, filtered by the constraints.
\<close>

theorem backtracking_exact:
  assumes wf: "well_formed csp" and tot: "conditions_total csp"
    and start: "domains csp \<noteq> [] \<or> consistent csp [] = Inr True"
  shows "\<exists>sols. backtracking csp [] = Inr sols \<and> distinct (map map_of sols) \<and>
           map_of ` set sols = map_of ` set (brute_force csp)"
proof -
  from wf have dk: "distinct (keys (domains csp))" by (simp add: well_formed_def)
  from backtracking_total_gen [OF tot dk partial_ok_Nil]
  obtain sols where run: "backtracking csp [] = Inr sols" ..
  have st: "length ([] :: ('a \<times> 'b) list) = length (domains csp) \<longrightarrow> consistent csp [] = Inr True"
    using start by auto
  from backtracking_exact_gen [OF wf partial_ok_Nil st run]
  have "distinct (map map_of sols)" and "map_of ` set sols = extensions csp []" by simp_all
  then show ?thesis
    using run unfolding brute_force_maps [OF dk] by (intro exI [of _ sols] conjI)
qed

theorem backtracking_exact_witness:
  "well_formed ab_model \<and> conditions_total ab_model \<and> domains ab_model \<noteq> [] \<and>
   (\<exists>sols. backtracking ab_model [] = Inr sols \<and> distinct (map map_of sols) \<and>
           map_of ` set sols = map_of ` set (brute_force ab_model))"
proof -
  have h1: "well_formed ab_model" by code_simp
  have h2: "conditions_total ab_model" by (simp add: conditions_total_def ab_model_def)
  have ne: "domains ab_model \<noteq> []"
    by (simp add: ab_model_def)
  then have h3: "domains ab_model \<noteq> [] \<or> consistent ab_model [] = Inr True"
    by (rule disjI1)
  show ?thesis
    using h1 h2 ne backtracking_exact [OF h1 h2 h3] by (intro conjI)
qed

text \<open>
  C1 as stated fails on a model without variables whose constraint always fails: brute
  force finds no satisfying assignment, the search emits the empty assignment.
\<close>

theorem backtracking_not_exact_without_variables:
  "well_formed empty_model \<and> backtracking empty_model [] = Inr [[]] \<and> brute_force empty_model = []"
  by code_simp

subsection \<open>The solutions of the problem instance\<close>

lemma orders_row_length: "n < 5 \<Longrightarrow> length (orders ! n) = 5"
proof -
  assume "n < 5"
  then consider "n = 0" | "n = 1" | "n = 2" | "n = 3" | "n = 4" by linarith
  then show ?thesis by cases (simp_all add: orders_def)
qed

lemma corridors_row_length: "n < 5 \<Longrightarrow> length (corridors ! n) = 5"
proof -
  assume "n < 5"
  then consider "n = 0" | "n = 1" | "n = 2" | "n = 3" | "n = 4" by linarith
  then show ?thesis by cases (simp_all add: corridors_def)
qed

lemma item_constraint_value:
  assumes j: "j < 5" and lx: "length xs = 5" and ly: "length ys = 5"
  shows "item_constraint_factory j (xs @ ys) =
           Inr (sum_list (map (\<lambda>n. orders ! n ! j * xs ! n) [0..<5])
                  \<le> sum_list (map (\<lambda>a. corridors ! a ! j * ys ! a) [0..<5]))"
proof -
  have d: "sum_gen (\<lambda>n. and_then (index orders n) (\<lambda>row. and_then (index row j) (\<lambda>x.
                            and_then (index xs n) (\<lambda>v. Inr (x * v))))) [0..<5]
           = Inr (sum_list (map (\<lambda>n. orders ! n ! j * xs ! n) [0..<5]))"
    by (rule sum_gen_Inr)
       (simp add: and_then_def index_def length_orders orders_row_length j lx)
  have c: "sum_gen (\<lambda>a. and_then (index corridors a) (\<lambda>row. and_then (index row j) (\<lambda>x.
                                 and_then (index ys a) (\<lambda>v. Inr (x * v))))) [0..<5]
           = Inr (sum_list (map (\<lambda>a. corridors ! a ! j * ys ! a) [0..<5]))"
    by (rule sum_gen_Inr)
       (simp add: and_then_def index_def length_corridors corridors_row_length j ly)
  have t: "take 5 (xs @ ys) = xs" "drop 5 (xs @ ys) = ys" by (simp_all add: lx)
  show ?thesis
    unfolding item_constraint_factory_def Let_def t d c by (simp add: and_then_def)
qed

lemma total_demand_value:
  assumes "length xs = 5"
  shows "total_demand_constraint xs =
           Inr (5 \<le> sum_list (map (\<lambda>n. order_totals ! n * xs ! n) [0..<5]) \<and>
                sum_list (map (\<lambda>n. order_totals ! n * xs ! n) [0..<5]) \<le> 12)"
proof -
  from assms obtain a b c d e where xs: "xs = [a, b, c, d, e]"
    by (auto simp: length_Suc_conv eval_nat_numeral)
  show ?thesis
    unfolding xs total_demand_constraint_def
    by (simp add: order_totals_eq LB_def UB_def upt_5 Let_def)
qed

lemma distinct_instance_keys: "distinct (keys (domains csp_instance))"
  by (simp add: csp_instance_def domains_dict_eq keys_def)

lemma orders_variables_eq: "orders_variables = map Pedido [0..<5]"
  by (simp add: orders_variables_def length_orders)

lemma all_variables_eq: "all_variables = map Pedido [0..<5] @ map Corredor [0..<5]"
  by (simp add: all_variables_def orders_variables_eq length_corridors)

lemma constraints_list_eq:
  "constraints_list =
     \<lparr>scope = orders_variables, condition = total_demand_constraint\<rparr> #
     map (\<lambda>j. \<lparr>scope = all_variables, condition = item_constraint_factory j\<rparr>) [0..<5]"
  by (simp add: constraints_list_def length_orders)

lemma instance_constraints_hold:
  assumes c: "complete_assignment csp_instance sol"
    and con: "consistent csp_instance sol = Inr True"
  shows "5 \<le> sum_list (map (\<lambda>n. order_totals ! n) (selected_orders sol)) \<and>
         sum_list (map (\<lambda>n. order_totals ! n) (selected_orders sol)) \<le> 12 \<and>
         (\<forall>i<5. sum_list (map (\<lambda>n. orders ! n ! i) (selected_orders sol))
                  \<le> sum_list (map (\<lambda>a. corridors ! a ! i) (selected_corridors sol)))"
proof -
  define pv where "pv n = the (map_of sol (Pedido n))" for n
  define cv where "cv n = the (map_of sol (Corredor n))" for n
  have p: "map_of sol (Pedido n) = Some (pv n) \<and> (pv n = 0 \<or> pv n = 1)" if "n < 5" for n
    using complete_instance_Pedido [OF c that] by (auto simp: pv_def)
  have q: "map_of sol (Corredor n) = Some (cv n) \<and> (cv n = 0 \<or> cv n = 1)" if "n < 5" for n
    using complete_instance_Corredor [OF c that] by (auto simp: cv_def)
  have so: "selected_orders sol = filter (\<lambda>n. pv n = 1) [0..<5]"
    unfolding selected_orders_def length_orders by (rule filter_cong) (auto simp: p)
  have sc: "selected_corridors sol = filter (\<lambda>n. cv n = 1) [0..<5]"
    unfolding selected_corridors_def length_corridors by (rule filter_cong) (auto simp: q)
  have pk: "Pedido n \<in> set (keys sol)" if "n < 5" for n
  proof -
    from p [OF that] have "Pedido n \<in> dom (map_of sol)" by (simp add: domIff)
    then show ?thesis by (simp only: dom_map_of_keys)
  qed
  have ck: "Corredor n \<in> set (keys sol)" if "n < 5" for n
  proof -
    from q [OF that] have "Corredor n \<in> dom (map_of sol)" by (simp add: domIff)
    then show ?thesis by (simp only: dom_map_of_keys)
  qed
  have th_o: "those (map (map_of sol) orders_variables) = Some (map pv [0..<5])"
    unfolding orders_variables_eq map_map comp_def by (rule those_map_Some) (simp add: p)
  have th_a: "those (map (map_of sol) all_variables) = Some (map pv [0..<5] @ map cv [0..<5])"
  proof -
    let ?g = "\<lambda>v. the (map_of sol v)"
    have "those (map (map_of sol) all_variables) = Some (map ?g all_variables)"
    proof (rule those_map_Some)
      fix v assume "v \<in> set all_variables"
      then obtain n where "n < 5" "v = Pedido n \<or> v = Corredor n"
        by (auto simp: all_variables_eq)
      then show "map_of sol v = Some (?g v)" using p q by auto
    qed
    also have "map ?g all_variables = map pv [0..<5] @ map cv [0..<5]"
      by (simp add: all_variables_eq pv_def cv_def)
    finally show ?thesis .
  qed
  let ?c0 = "\<lparr>scope = orders_variables, condition = total_demand_constraint\<rparr>"
  have "?c0 \<in> set (constraints csp_instance)"
    by (simp add: csp_instance_def constraints_list_eq)
  moreover have "\<forall>v\<in>set (scope ?c0). v \<in> set (keys sol)"
    using pk by (auto simp: orders_variables_eq)
  ultimately have "holds ?c0 sol = Inr True"
    using con unfolding consistent_True_iff by blast
  then have "total_demand_constraint (map pv [0..<5]) = Inr True"
    by (simp add: holds_def th_o)
  then have t: "5 \<le> sum_list (map (\<lambda>n. order_totals ! n * map pv [0..<5] ! n) [0..<5]) \<and>
             sum_list (map (\<lambda>n. order_totals ! n * map pv [0..<5] ! n) [0..<5]) \<le> 12"
    by (simp add: total_demand_value)
  have nth_p: "sum_list (map (\<lambda>n. f n * map pv [0..<5] ! n) [0..<5]) =
               sum_list (map (\<lambda>n. f n * pv n) [0..<5])" for f :: "nat \<Rightarrow> int"
    by (rule arg_cong [where f = sum_list], rule map_cong) simp_all
  have nth_c: "sum_list (map (\<lambda>n. f n * map cv [0..<5] ! n) [0..<5]) =
               sum_list (map (\<lambda>n. f n * cv n) [0..<5])" for f :: "nat \<Rightarrow> int"
    by (rule arg_cong [where f = sum_list], rule map_cong) simp_all
  have sel_p: "sum_list (map (\<lambda>n. f n * pv n) [0..<5]) = sum_list (map f (selected_orders sol))"
    for f :: "nat \<Rightarrow> int"
    unfolding so by (rule sum_list_binary_weighted) (use p in auto)
  have sel_c: "sum_list (map (\<lambda>n. f n * cv n) [0..<5]) = sum_list (map f (selected_corridors sol))"
    for f :: "nat \<Rightarrow> int"
    unfolding sc by (rule sum_list_binary_weighted) (use q in auto)
  have total: "5 \<le> sum_list (map (\<lambda>n. order_totals ! n) (selected_orders sol)) \<and>
         sum_list (map (\<lambda>n. order_totals ! n) (selected_orders sol)) \<le> 12"
    using t unfolding nth_p sel_p .
  have item: "sum_list (map (\<lambda>n. orders ! n ! i) (selected_orders sol))
                  \<le> sum_list (map (\<lambda>a. corridors ! a ! i) (selected_corridors sol))"
    if i: "i < 5" for i
  proof -
    let ?ci = "\<lparr>scope = all_variables, condition = item_constraint_factory i\<rparr>"
    have "?ci \<in> set (constraints csp_instance)"
      using i by (simp add: csp_instance_def constraints_list_eq)
    moreover have "\<forall>v\<in>set (scope ?ci). v \<in> set (keys sol)"
      using pk ck by (auto simp: all_variables_eq)
    ultimately have "holds ?ci sol = Inr True"
      using con unfolding consistent_True_iff by blast
    then have "item_constraint_factory i (map pv [0..<5] @ map cv [0..<5]) = Inr True"
      by (simp add: holds_def th_a)
    then have "sum_list (map (\<lambda>n. orders ! n ! i * map pv [0..<5] ! n) [0..<5])
                  \<le> sum_list (map (\<lambda>a. corridors ! a ! i * map cv [0..<5] ! a) [0..<5])"
      by (simp add: item_constraint_value [OF i])
    then show ?thesis unfolding nth_p nth_c sel_p sel_c .
  qed
  from total item show ?thesis by blast
qed

lemma yield_from_all_subset:
  "yield_from_all rs = Inr xs \<Longrightarrow> Inr ys \<in> set rs \<Longrightarrow> set ys \<subseteq> set xs"
proof (induction rs arbitrary: xs)
  case Nil
  then show ?case by simp
next
  case (Cons r rs)
  from Cons.prems(1) obtain zs ws where r: "r = Inr zs" and w: "yield_from_all rs = Inr ws"
    and xs: "xs = zs @ ws"
    by (auto split: sum.splits)
  from Cons.prems(2) have "Inr ys = r \<or> Inr ys \<in> set rs" by auto
  then show ?case
  proof
    assume "Inr ys = r"
    then show ?thesis by (simp add: r xs)
  next
    assume "Inr ys \<in> set rs"
    from Cons.IH [OF w this] show ?thesis by (auto simp: xs)
  qed
qed

lemma backtracking_descend:
  assumes run: "backtracking csp a = Inr sols"
    and inc: "length a \<noteq> length (domains csp)"
    and m: "min_key (domain_size csp) (unassigned csp a) = Inr var"
    and d: "map_of (domains csp) var = Some d"
    and v: "val |\<in>| d"
    and con: "consistent csp (AList.update var val a) = Inr True"
  shows "\<exists>sols'. backtracking csp (AList.update var val a) = Inr sols' \<and> set sols' \<subseteq> set sols"
proof -
  let ?branch = "\<lambda>val. case consistent csp (AList.update var val a) of
                         Inl e \<Rightarrow> Inl e
                       | Inr ok \<Rightarrow> if ok then backtracking csp (AList.update var val a) else Inr []"
  from run have y: "yield_from_all (map ?branch (sorted_list_of_fset d)) = Inr sols"
    by (simp only: backtracking_step [OF inc m d])
  from yield_from_all_map_Inr [OF y] v obtain zs where zs: "?branch val = Inr zs" by auto
  then have rec: "backtracking csp (AList.update var val a) = Inr zs" by (simp add: con)
  have "Inr zs \<in> set (map ?branch (sorted_list_of_fset d))"
    using v zs by (auto simp: image_iff intro!: bexI [of _ val])
  from yield_from_all_subset [OF y this] rec show ?thesis by (intro exI [of _ zs] conjI)
qed

lemma wave_a_path:
  "list_all (\<lambda>k.
      length (take k wave_a) \<noteq> length (domains csp_instance) \<and>
      min_key (domain_size csp_instance) (unassigned csp_instance (take k wave_a))
        = Inr (fst (wave_a ! k)) \<and>
      map_of (domains csp_instance) (fst (wave_a ! k)) = Some {|0, 1|} \<and>
      snd (wave_a ! k) |\<in>| {|0, 1|} \<and>
      AList.update (fst (wave_a ! k)) (snd (wave_a ! k)) (take k wave_a) = take (Suc k) wave_a \<and>
      consistent csp_instance (take (Suc k) wave_a) = Inr True) [0..<10]"
  by code_simp

lemma conditions_total_instance: "conditions_total csp_instance"
  unfolding conditions_total_def
proof (intro ballI allI impI)
  fix con vals
  assume con: "con \<in> set (constraints csp_instance)"
    and l2: "list_all2 (\<lambda>v x. \<exists>d. map_of (domains csp_instance) v = Some d \<and> x |\<in>| d)
               (scope con) vals"
  from con have "con = \<lparr>scope = orders_variables, condition = total_demand_constraint\<rparr> \<or>
      (\<exists>i<5. con = \<lparr>scope = all_variables, condition = item_constraint_factory i\<rparr>)"
    by (auto simp: csp_instance_def constraints_list_eq)
  then show "\<exists>b. condition con vals = Inr b"
  proof (elim disjE exE conjE)
    assume "con = \<lparr>scope = orders_variables, condition = total_demand_constraint\<rparr>"
    then show ?thesis by (simp add: total_demand_constraint_def Let_def)
  next
    fix i assume i: "i < 5"
      and c: "con = \<lparr>scope = all_variables, condition = item_constraint_factory i\<rparr>"
    from l2 have "length vals = length (scope con)" by (simp add: list_all2_lengthD)
    then have len: "length vals = 10" by (simp add: c all_variables_eq)
    have "item_constraint_factory i (take 5 vals @ drop 5 vals) =
            Inr (sum_list (map (\<lambda>n. orders ! n ! i * take 5 vals ! n) [0..<5])
                  \<le> sum_list (map (\<lambda>a. corridors ! a ! i * drop 5 vals ! a) [0..<5]))"
      by (rule item_constraint_value [OF i]) (simp_all add: len)
    then show ?thesis by (simp add: c)
  qed
qed

lemma wave_a_emitted:
  assumes run: "backtracking csp_instance [] = Inr sols"
  shows "wave_a \<in> set sols"
proof -
  have path: "k \<le> 10 \<Longrightarrow> \<exists>s. backtracking csp_instance (take k wave_a) = Inr s \<and> set s \<subseteq> set sols"
    for k
  proof (induction k)
    case 0
    show ?case using run by (intro exI [of _ sols]) simp
  next
    case (Suc k)
    then have "k \<in> set [0..<10]" by simp
    with wave_a_path have f:
      "length (take k wave_a) \<noteq> length (domains csp_instance)"
      "min_key (domain_size csp_instance) (unassigned csp_instance (take k wave_a))
        = Inr (fst (wave_a ! k))"
      "map_of (domains csp_instance) (fst (wave_a ! k)) = Some {|0, 1|}"
      "snd (wave_a ! k) |\<in>| {|0, 1|}"
      "AList.update (fst (wave_a ! k)) (snd (wave_a ! k)) (take k wave_a) = take (Suc k) wave_a"
      "consistent csp_instance (take (Suc k) wave_a) = Inr True"
      unfolding list_all_iff by blast+
    from Suc obtain s where s: "backtracking csp_instance (take k wave_a) = Inr s"
      and sub: "set s \<subseteq> set sols" by auto
    from backtracking_descend [OF s f(1) f(2) f(3) f(4)] f(6)
    obtain s' where "backtracking csp_instance (take (Suc k) wave_a) = Inr s'" "set s' \<subseteq> set s"
      unfolding f(5) by auto
    with sub show ?case by (intro exI [of _ s']) auto
  qed
  from path [of 10] obtain s where s: "backtracking csp_instance wave_a = Inr s"
    and sub: "set s \<subseteq> set sols"
    by (auto simp: wave_a_def)
  have "length wave_a = length (domains csp_instance)"
    by (simp add: wave_a_def csp_instance_def domains_dict_eq)
  from backtracking_done [OF this] s have "s = [wave_a]" by simp
  with sub show ?thesis by simp
qed

text \<open>
  C3: every solution that the search emits for the problem instance keeps the total
  units of the selected orders between \<open>LB = 5\<close> and \<open>UB = 12\<close>, and for every item
  \<open>i\<close> in \<open>0..4\<close> the demand of the selected orders is at most the capacity of the
  selected corridors.
\<close>

theorem instance_solutions_feasible:
  assumes run: "backtracking csp_instance [] = Inr sols" and sol: "sol \<in> set sols"
  shows "5 \<le> sum_list (map (\<lambda>n. order_totals ! n) (selected_orders sol)) \<and>
         sum_list (map (\<lambda>n. order_totals ! n) (selected_orders sol)) \<le> 12 \<and>
         (\<forall>i<5. sum_list (map (\<lambda>n. orders ! n ! i) (selected_orders sol))
                  \<le> sum_list (map (\<lambda>a. corridors ! a ! i) (selected_corridors sol)))"
proof -
  from backtracking_sound_gen [OF run sol] partial_ok_Nil [of csp_instance]
  have len: "length sol = length (domains csp_instance)"
    and c: "sol = [] \<or> consistent csp_instance sol = Inr True" and ok: "partial_ok csp_instance sol"
    by simp_all
  from len have "sol \<noteq> []" by (auto simp: csp_instance_def domains_dict_eq)
  with c have con: "consistent csp_instance sol = Inr True" by simp
  have "complete_assignment csp_instance sol"
    using distinct_instance_keys ok len by (rule partial_ok_complete)
  then show ?thesis using con by (rule instance_constraints_hold)
qed

theorem instance_solutions_feasible_witness:
  "\<exists>sols. backtracking csp_instance [] = Inr sols \<and> wave_a \<in> set sols \<and>
     (5 \<le> sum_list (map (\<lambda>n. order_totals ! n) (selected_orders wave_a)) \<and>
      sum_list (map (\<lambda>n. order_totals ! n) (selected_orders wave_a)) \<le> 12 \<and>
      (\<forall>i<5. sum_list (map (\<lambda>n. orders ! n ! i) (selected_orders wave_a))
                  \<le> sum_list (map (\<lambda>a. corridors ! a ! i) (selected_corridors wave_a))))"
proof -
  from backtracking_total_gen [OF conditions_total_instance distinct_instance_keys partial_ok_Nil]
  obtain sols where run: "backtracking csp_instance [] = Inr sols" ..
  have mem: "wave_a \<in> set sols" using run by (rule wave_a_emitted)
  note c = instance_solutions_feasible [OF run mem]
  show ?thesis
    by (rule exI [of _ sols], rule conjI [OF run], rule conjI [OF mem], rule c)
qed

subsection \<open>The search on the store\<close>

lemma refines_Inl: "take (length h) h' = h \<Longrightarrow> refines (Inl e) h (Inl e, h')"
  by (simp add: refines_def)

lemma refines_Inr:
  "take (length h) h' = h \<Longrightarrow> map ((!) h') ps = sols \<Longrightarrow> list_all (\<lambda>q. q < length h') ps \<Longrightarrow>
   refines (Inr sols) h (Inr ps, h')"
  by (simp add: refines_def)

lemma refines_frame: "refines pure h (r, h') \<Longrightarrow> take (length h) h' = h"
  by (simp add: refines_def)

lemma refines_cases:
  assumes "refines pure h (r, h')"
  obtains (raised) e where "pure = Inl e" "r = Inl e"
  | (returned) sols ps where "pure = Inr sols" "r = Inr ps" "map ((!) h') ps = sols"
      "list_all (\<lambda>q. q < length h') ps"
  using assms by (auto simp: refines_def split: sum.splits)

lemma frame_length: "take (length h) h' = h \<Longrightarrow> length h \<le> length h'"
proof -
  assume "take (length h) h' = h"
  then have "length (take (length h) h') = length h" by simp
  then show ?thesis by simp
qed

lemma frame_nth: "take (length h) h' = h \<Longrightarrow> i < length h \<Longrightarrow> h' ! i = h ! i"
  by (metis nth_take)

lemma frame_trans:
  assumes "take (length h) h2 = h" and "take (length h2) h3 = h2"
  shows "take (length h) h3 = h"
proof -
  have "length h \<le> length h2" using assms(1) by (rule frame_length)
  then have "take (length h) h3 = take (length h) (take (length h2) h3)" by (simp add: min_def)
  then show ?thesis by (simp add: assms)
qed

lemma frame_map_nth:
  assumes "take (length h) h' = h" and "list_all (\<lambda>q. q < length h) ps"
  shows "map ((!) h') ps = map ((!) h) ps"
proof (rule map_cong [OF refl])
  fix q assume "q \<in> set ps"
  with assms(2) have "q < length h" by (simp add: list_all_iff)
  with assms(1) show "h' ! q = h ! q" by (rule frame_nth)
qed

lemma refines_seq:
  assumes first: "refines b h2 (r3, h3)" and fr: "take (length h) h2 = h"
    and cont: "\<And>ys. r3 = Inr ys \<Longrightarrow> \<exists>r4 h4. K h3 = Some (r4, h4) \<and> refines rest h3 (r4, h4)"
  shows "\<exists>res. (case Some (r3, h3) of
                  None \<Rightarrow> None
                | Some (Inl e, h3) \<Rightarrow> Some (Inl e, h3)
                | Some (Inr ys, h3) \<Rightarrow>
                    (case K h3 of
                       None \<Rightarrow> None
                     | Some (Inl e, h4) \<Rightarrow> Some (Inl e, h4)
                     | Some (Inr zs, h4) \<Rightarrow> Some (Inr (ys @ zs), h4))) = Some res \<and>
          refines (case b of Inl e \<Rightarrow> Inl e
                   | Inr xs \<Rightarrow> (case rest of Inl e \<Rightarrow> Inl e | Inr ys \<Rightarrow> Inr (xs @ ys))) h res"
  using first
proof (cases rule: refines_cases)
  case (raised e)
  have "take (length h) h3 = h" using fr refines_frame [OF first] by (rule frame_trans)
  then have "refines (Inl e) h (Inl e, h3)" by (rule refines_Inl)
  then show ?thesis by (simp add: raised)
next
  case (returned sols ps)
  from cont [OF returned(2)] obtain r4 h4 where k: "K h3 = Some (r4, h4)"
    and r: "refines rest h3 (r4, h4)" by (elim exE conjE)
  have f3: "take (length h) h3 = h" using fr refines_frame [OF first] by (rule frame_trans)
  have f34: "take (length h3) h4 = h3" using r by (rule refines_frame)
  have f4: "take (length h) h4 = h" using f3 f34 by (rule frame_trans)
  from r show ?thesis
  proof (cases rule: refines_cases)
    case (raised e)
    have "refines (Inl e) h (Inl e, h4)" using f4 by (rule refines_Inl)
    then show ?thesis by (simp add: returned k raised)
  next
    case inner: (returned sols2 zs)
    have "map ((!) h4) ps = map ((!) h3) ps" using f34 returned(4) by (rule frame_map_nth)
    then have m: "map ((!) h4) (ps @ zs) = sols @ sols2"
      by (simp add: returned(3) inner(3))
    have "length h3 \<le> length h4" using f34 by (rule frame_length)
    with returned(4) inner(4) have b: "list_all (\<lambda>q. q < length h4) (ps @ zs)"
      by (auto simp: list_all_iff)
    have "refines (Inr (sols @ sols2)) h (Inr (ps @ zs), h4)" using f4 m b by (rule refines_Inr)
    then show ?thesis by (simp add: returned k inner)
  qed
qed

lemma for_values_refines:
  assumes rec: "\<And>q k. q < length k \<Longrightarrow> length (unassigned csp (k ! q)) < n \<Longrightarrow>
                  \<exists>r h'. rec q k = Some (r, h') \<and> refines (backtracking csp (k ! q)) k (r, h')"
    and var: "var \<in> set (unassigned csp a)" and meas: "length (unassigned csp a) \<le> n"
  shows "p < length h \<Longrightarrow> h ! p = a \<Longrightarrow>
         \<exists>r h'. for_values rec csp p var vals h = Some (r, h') \<and>
           refines (yield_from_all
                      (map (\<lambda>val. case consistent csp (AList.update var val a) of
                                    Inl e \<Rightarrow> Inl e
                                  | Inr ok \<Rightarrow>
                                      if ok then backtracking csp (AList.update var val a)
                                      else Inr [])
                         vals)) h (r, h')"
proof (induction vals arbitrary: h)
  case Nil
  have "refines (Inr []) h (Inr [], h)" by (rule refines_Inr) simp_all
  then show ?case by simp
next
  case (Cons val vals)
  note p = Cons.prems(1) and hp = Cons.prems(2)
  let ?f = "\<lambda>val. case consistent csp (AList.update var val a) of
                      Inl e \<Rightarrow> Inl e
                    | Inr ok \<Rightarrow> if ok then backtracking csp (AList.update var val a) else Inr []"
  let ?na = "AList.update var val a"
  let ?h2 = "h @ [?na]"
  let ?K = "for_values rec csp p var vals"
  have unfold: "for_values rec csp p var (val # vals) h =
      (case consistent csp ?na of
         Inl e \<Rightarrow> Some (Inl e, ?h2)
       | Inr ok \<Rightarrow>
           (case (if ok then rec (length h) ?h2 else Some (Inr [], ?h2)) of
              None \<Rightarrow> None
            | Some (Inl e, h3) \<Rightarrow> Some (Inl e, h3)
            | Some (Inr ys, h3) \<Rightarrow>
                (case ?K h3 of
                   None \<Rightarrow> None
                 | Some (Inl e, h4) \<Rightarrow> Some (Inl e, h4)
                 | Some (Inr zs, h4) \<Rightarrow> Some (Inr (ys @ zs), h4))))"
    unfolding for_values.simps Let_def hp nth_append_length list_update_length by (rule refl)
  have f2: "take (length h) ?h2 = h" by simp
  have p2: "p < length ?h2" using p by simp
  have hp2: "?h2 ! p = a" using p hp by (simp add: nth_append)
  show ?case
  proof (cases "consistent csp ?na")
    case (Inl e)
    have "refines (Inl e) h (Inl e, ?h2)" using f2 by (rule refines_Inl)
    then show ?thesis unfolding unfold by (simp add: Inl del: for_values.simps)
  next
    case (Inr ok)
    let ?b = "if ok then backtracking csp ?na else Inr []"
    have first: "\<exists>r3 h3. (if ok then rec (length h) ?h2 else Some (Inr [], ?h2)) = Some (r3, h3) \<and>
                   refines ?b ?h2 (r3, h3)"
    proof (cases ok)
      case True
      have "length (unassigned csp ?na) < length (unassigned csp a)"
        using var by (rule unassigned_decreases)
      with meas have "length (unassigned csp (?h2 ! length h)) < n" by simp
      from rec [OF _ this] show ?thesis by (simp add: True)
    next
      case False
      have "refines (Inr []) ?h2 (Inr [], ?h2)" by (rule refines_Inr) simp_all
      then show ?thesis by (simp add: False)
    qed
    then obtain r3 h3
      where i: "(if ok then rec (length h) ?h2 else Some (Inr [], ?h2)) = Some (r3, h3)"
        and r: "refines ?b ?h2 (r3, h3)" by (elim exE conjE)
    have f23: "take (length ?h2) h3 = ?h2" using r by (rule refines_frame)
    have p3: "p < length h3" using p2 frame_length [OF f23] by simp
    have hp3: "h3 ! p = a" using frame_nth [OF f23 p2] hp2 by simp
    have cont: "\<exists>r4 h4. ?K h3 = Some (r4, h4) \<and> refines (yield_from_all (map ?f vals)) h3 (r4, h4)"
      using p3 hp3 by (rule Cons.IH)
    from refines_seq [where K = ?K and rest = "yield_from_all (map ?f vals)", OF r f2 cont]
    obtain res where res: "(case Some (r3, h3) of
                  None \<Rightarrow> None
                | Some (Inl e, h3) \<Rightarrow> Some (Inl e, h3)
                | Some (Inr ys, h3) \<Rightarrow>
                    (case ?K h3 of
                       None \<Rightarrow> None
                     | Some (Inl e, h4) \<Rightarrow> Some (Inl e, h4)
                     | Some (Inr zs, h4) \<Rightarrow> Some (Inr (ys @ zs), h4))) = Some res"
      and rr: "refines (case ?b of Inl e \<Rightarrow> Inl e
                   | Inr xs \<Rightarrow> (case yield_from_all (map ?f vals) of
                                  Inl e \<Rightarrow> Inl e | Inr ys \<Rightarrow> Inr (xs @ ys))) h res"
      by auto
    have lhs: "for_values rec csp p var (val # vals) h = Some res"
      unfolding unfold Inr sum.case i by (rule res)
    have rhs: "yield_from_all (map ?f (val # vals)) =
        (case ?b of Inl e \<Rightarrow> Inl e
                   | Inr xs \<Rightarrow> (case yield_from_all (map ?f vals) of
                                  Inl e \<Rightarrow> Inl e | Inr ys \<Rightarrow> Inr (xs @ ys)))"
      by (simp add: Inr)
    obtain r' h' where "res = (r', h')" by (cases res)
    with lhs rr show ?thesis
      unfolding rhs by (intro exI [of _ r'] exI [of _ h']) (simp del: for_values.simps)
  qed
qed

lemma backtracking_heap_refines:
  "p < length h \<Longrightarrow> length (unassigned csp (h ! p)) < fuel \<Longrightarrow>
   \<exists>r h'. backtracking_heap fuel csp p h = Some (r, h') \<and>
     refines (backtracking csp (h ! p)) h (r, h')"
proof (induction fuel arbitrary: p h)
  case 0
  then show ?case by simp
next
  case (Suc fuel)
  note p = Suc.prems(1) and meas = Suc.prems(2)
  show ?case
  proof (cases rule: backtracking_cases [where a = "h ! p" and csp = csp])
    case leaf
    have "refines (Inr [h ! p]) h (Inr [p], h)"
      using p by (intro refines_Inr) simp_all
    then show ?thesis by (simp add: leaf)
  next
    case stuck
    have "refines (Inl ValueError) h (Inl ValueError, h)" by (rule refines_Inl) simp
    then show ?thesis by (simp add: stuck)
  next
    case (step var d)
    have heap: "backtracking_heap (Suc fuel) csp p h =
        for_values (backtracking_heap fuel csp) csp p var (sorted_list_of_fset d) h"
      by (simp add: step(1) step(3) step(4) getitem_def)
    from meas have le: "length (unassigned csp (h ! p)) \<le> fuel" by simp
    have "\<exists>r h'. for_values (backtracking_heap fuel csp) csp p var (sorted_list_of_fset d) h
              = Some (r, h') \<and>
           refines (yield_from_all
                      (map (\<lambda>val. case consistent csp (AList.update var val (h ! p)) of
                                    Inl e \<Rightarrow> Inl e
                                  | Inr ok \<Rightarrow>
                                      if ok then backtracking csp (AList.update var val (h ! p))
                                      else Inr [])
                         (sorted_list_of_fset d))) h (r, h')"
      using Suc.IH step(2) le p refl by (rule for_values_refines)
    then show ?thesis by (simp only: heap step(5))
  qed
qed

lemma refines_deref: "refines pure h (r, h') \<Longrightarrow> map_sum id (map ((!) h')) r = pure"
  by (erule refines_cases) simp_all

lemma refines_bound: "refines pure h (Inr ps, h') \<Longrightarrow> list_all (\<lambda>q. q < length h') ps"
  by (erule refines_cases) simp_all



lemma length_unassigned_le: "length (unassigned csp a) \<le> length (domains csp)"
  by (simp add: unassigned_def keys_def le_trans [OF length_filter_le])

text \<open>
  C6: two successive calls \<open>backtracking(csp)\<close>, both on the shared default object
  (initially empty), the second on the store the first one left: both return, the default
  object is still empty after the first, the second emits the same assignments in the same
  order as the first (or raises the same exception), namely the result of the search on
  values, and it leaves the objects emitted by the first unchanged.
\<close>

theorem backtracking_heap_restartable:
  assumes d: "shared < length h" and e: "h ! shared = []" and f: "length (domains csp) < fuel"
  shows "\<exists>r1 h1 r2 h2.
           backtracking_heap fuel csp shared h = Some (r1, h1) \<and>
           backtracking_heap fuel csp shared h1 = Some (r2, h2) \<and>
           h1 ! shared = [] \<and>
           map_sum id (map ((!) h1)) r1 = backtracking csp [] \<and>
           map_sum id (map ((!) h2)) r2 = map_sum id (map ((!) h1)) r1 \<and>
           map_sum id (map ((!) h2)) r1 = map_sum id (map ((!) h1)) r1"
proof -
  have m: "length (unassigned csp (k ! shared)) < fuel" if "k ! shared = []" for k
    using length_unassigned_le [of csp "[]"] f that by simp
  from backtracking_heap_refines [OF d m [OF e]] obtain r1 h1
    where run1: "backtracking_heap fuel csp shared h = Some (r1, h1)"
      and ref1: "refines (backtracking csp (h ! shared)) h (r1, h1)"
    by (elim exE conjE)
  have f1: "take (length h) h1 = h" using ref1 by (rule refines_frame)
  have e1: "h1 ! shared = []" using frame_nth [OF f1 d] e by simp
  have d1: "shared < length h1" using d frame_length [OF f1] by simp
  from backtracking_heap_refines [OF d1 m [OF e1]] obtain r2 h2
    where run2: "backtracking_heap fuel csp shared h1 = Some (r2, h2)"
      and ref2: "refines (backtracking csp (h1 ! shared)) h1 (r2, h2)"
    by (elim exE conjE)
  have f2: "take (length h1) h2 = h1" using ref2 by (rule refines_frame)
  have s1: "map_sum id (map ((!) h1)) r1 = backtracking csp []"
    using refines_deref [OF ref1] by (simp add: e)
  have s2: "map_sum id (map ((!) h2)) r2 = backtracking csp []"
    using refines_deref [OF ref2] by (simp add: e1)
  have s3: "map_sum id (map ((!) h2)) r1 = map_sum id (map ((!) h1)) r1"
  proof (cases r1)
    case (Inl err)
    then show ?thesis by simp
  next
    case (Inr ps)
    with ref1 have "list_all (\<lambda>q. q < length h1) ps" by (simp add: refines_bound)
    with f2 have "map ((!) h2) ps = map ((!) h1) ps" by (rule frame_map_nth)
    then show ?thesis by (simp add: Inr)
  qed
  have s21: "map_sum id (map ((!) h2)) r2 = map_sum id (map ((!) h1)) r1"
    using s1 s2 by simp
  show ?thesis
    by (intro exI [of _ r1] exI [of _ h1] exI [of _ r2] exI [of _ h2] conjI run1 run2 e1 s1 s21 s3)
qed

theorem backtracking_heap_restartable_witness:
  "(0 :: nat) < length [[] :: (string, int) assignment] \<and>
   [[] :: (string, int) assignment] ! 0 = [] \<and> length (domains ab_model) < 3 \<and>
   (\<exists>r1 h1 r2 h2.
           backtracking_heap 3 ab_model 0 [[]] = Some (r1, h1) \<and>
           backtracking_heap 3 ab_model 0 h1 = Some (r2, h2) \<and>
           h1 ! 0 = [] \<and>
           map_sum id (map ((!) h1)) r1 = backtracking ab_model [] \<and>
           map_sum id (map ((!) h2)) r2 = map_sum id (map ((!) h1)) r1 \<and>
           map_sum id (map ((!) h2)) r1 = map_sum id (map ((!) h1)) r1)"
proof -
  have h1: "(0 :: nat) < length [[] :: (string, int) assignment]" by simp
  have h2: "[[] :: (string, int) assignment] ! 0 = []" by simp
  have h3: "length (domains ab_model) < 3" by (simp add: ab_model_def)
  show ?thesis
    using h1 h2 h3 backtracking_heap_restartable [OF h1 h2 h3] by (intro conjI)
qed

end
